theory Spec2Isabelle
  imports Complex_Main
begin

section \<open>Numbers of the Python runtime\<close>

text \<open>
  The coordinates of a vector are \<^verbatim>\<open>decimal.Decimal\<close> values; the specification calls them
  high-precision real numbers. A finite Decimal is modelled by the rational number it
  denotes: equality and order of Decimals are numeric, so the representation
  (coefficient and exponent) is not observable by the code under study. NaN and the
  infinities are not real numbers and are not coordinates of the model.

  The constructor \<^verbatim>\<open>Decimal(x)\<close> is exact for an int, a float or a Decimal. Every
  arithmetic operation computes its exact result and then rounds it in the default
  context: 28 significant digits, round-half-even, \<open>Emin = -999999\<close> with gradual underflow,
  and \<^verbatim>\<open>decimal.Overflow\<close> (trapped, so raised) when the rounded result reaches
  \<open>10 ^ (Emax + 1)\<close>, \<open>Emax = 999999\<close>. The same rounding scheme with base 2 and 53 digits
  gives the conversion to a Python float (IEEE binary64).
\<close>

type_synonym decimal = rat

text \<open>A float, or the Decimal made from a float: finite, or an infinity.\<close>

datatype ext = Fin rat | PInf | NInf

datatype error =
    TypeError string
  | ValueError
  | IndexError
  | InvalidOperation
  | Overflow
  | ZeroDivisionError
  | CannotNormalizeZeroVectorError
  | NoUniqueParallelComponentError
  | NoUniqueOrthogonalComponentError

text \<open>Sequencing of calls that may raise.\<close>

definition bind_err :: "error + 'a \<Rightarrow> ('a \<Rightarrow> error + 'b) \<Rightarrow> error + 'b" where
  "bind_err m f = (case m of Inl e \<Rightarrow> Inl e | Inr x \<Rightarrow> f x)"

text \<open>A list comprehension whose element expression may raise: the first failure ends it.\<close>

fun map_err :: "('a \<Rightarrow> error + 'b) \<Rightarrow> 'a list \<Rightarrow> error + 'b list" where
  "map_err f [] = Inr []"
| "map_err f (x # xs) =
     bind_err (f x) (\<lambda>y. bind_err (map_err f xs) (\<lambda>ys. Inr (y # ys)))"

definition rnd_even :: "rat \<Rightarrow> int" where
  "rnd_even x = (let f = \<lfloor>x\<rfloor>; d = x - of_int f in
     if d < 1/2 then f else if 1/2 < d then f + 1 else if even f then f else f + 1)"

definition bpow :: "int \<Rightarrow> int \<Rightarrow> rat" where
  "bpow b k = (if 0 \<le> k then of_int b ^ nat k else 1 / of_int b ^ nat (- k))"

text \<open>Number of digits of a positive integer in base \<open>b\<close>.\<close>

function ndigits :: "int \<Rightarrow> int \<Rightarrow> int" where
  "ndigits b x = (if 0 < x \<and> 1 < b then ndigits b (x div b) + 1 else 0)"
  by pat_completeness auto
termination
proof (relation "measure (\<lambda>(b, x). nat x)")
  show "wf (measure (\<lambda>(b, x). nat x))" by simp
next
  fix b x :: int
  assume pos: "0 < x \<and> 1 < b"
  then have "x div b < x" by (simp add: int_div_less_self)
  with pos show "((b, x div b), (b, x)) \<in> measure (\<lambda>(b, x). nat x)"
    by simp
qed

declare ndigits.simps [simp del]

text \<open>The exponent \<open>e\<close> with \<open>b ^ e \<le> \<bar>x\<bar> < b ^ (e + 1)\<close>, for \<open>x \<noteq> 0\<close>.\<close>

definition adj_exp :: "int \<Rightarrow> rat \<Rightarrow> int" where
  "adj_exp b x = (let pq = quotient_of \<bar>x\<bar>;
       e0 = ndigits b (fst pq) - ndigits b (snd pq)
     in if bpow b e0 \<le> \<bar>x\<bar> then e0 else e0 - 1)"

text \<open>
  Rounding to the nearest number with \<open>p\<close> digits in base \<open>b\<close>, ties to even, with
  gradual underflow below the exponent \<open>emin\<close>.
\<close>

definition fl_round :: "int \<Rightarrow> int \<Rightarrow> int \<Rightarrow> rat \<Rightarrow> rat" where
  "fl_round b p emin x = (if x = 0 then 0 else
     let e = max (adj_exp b x) emin; q = bpow b (e - p + 1)
     in of_int (rnd_even (x / q)) * q)"

subsection \<open>Decimal arithmetic in the default context\<close>

text \<open>
  The final step of every Decimal operation, for a context of precision \<open>prec\<close> with the
  exponent limits of the default context: round, then raise \<^verbatim>\<open>Overflow\<close> if the adjusted
  exponent of the rounded result exceeds \<open>Emax\<close>.
\<close>

definition dec_fix :: "int \<Rightarrow> rat \<Rightarrow> error + decimal" where
  "dec_fix prec x = (let y = fl_round 10 prec (- 999999) x in
     if y \<noteq> 0 \<and> 999999 < adj_exp 10 y then Inl Overflow else Inr y)"

definition ctx_round :: "rat \<Rightarrow> error + decimal" where
  "ctx_round x = dec_fix 28 x"

definition dec_add :: "decimal \<Rightarrow> decimal \<Rightarrow> error + decimal" where
  "dec_add a b = ctx_round (a + b)"

definition dec_sub :: "decimal \<Rightarrow> decimal \<Rightarrow> error + decimal" where
  "dec_sub a b = ctx_round (a - b)"

definition dec_mul :: "decimal \<Rightarrow> decimal \<Rightarrow> error + decimal" where
  "dec_mul a b = ctx_round (a * b)"

definition dec_neg :: "decimal \<Rightarrow> error + decimal" where
  "dec_neg a = ctx_round (- a)"

definition dec_abs :: "decimal \<Rightarrow> error + decimal" where
  "dec_abs a = ctx_round \<bar>a\<bar>"

text \<open>
  \<^verbatim>\<open>e ** 2\<close>. For an integer exponent the power operator of CPython's \<^verbatim>\<open>decimal\<close> (libmpdec,
  \<^verbatim>\<open>_mpd_qpow_int\<close>) multiplies in a working context whose precision is that of the
  context plus the number of digits of the exponent plus 2, here 31 digits, and then
  rounds the product to the 28 digits of the context: the square is rounded twice.
\<close>

definition dec_pow2 :: "decimal \<Rightarrow> error + decimal" where
  "dec_pow2 a = bind_err (dec_fix 31 (a * a)) ctx_round"

text \<open>The smallest positive Decimal of the default context, \<open>10 ^ Etiny\<close>.\<close>

definition dec_etiny :: rat where
  "dec_etiny = bpow 10 (- 1000026)"

text \<open>
  \<^verbatim>\<open>a / b\<close> where the divisor may be an infinite Decimal. A zero divisor raises
  \<^verbatim>\<open>decimal.DivisionByZero\<close>, a subclass of \<^verbatim>\<open>ZeroDivisionError\<close>, unless the dividend is
  zero too (then \<^verbatim>\<open>InvalidOperation\<close>); a finite number divided by an infinity is zero.
\<close>

fun dec_div :: "decimal \<Rightarrow> ext \<Rightarrow> error + decimal" where
  "dec_div a (Fin b) =
     (if b = 0 then (if a = 0 then Inl InvalidOperation else Inl ZeroDivisionError)
      else ctx_round (a / b))"
| "dec_div a PInf = Inr 0"
| "dec_div a NInf = Inr 0"

text \<open>The built-in \<^verbatim>\<open>sum\<close>: starts from the int 0 and adds from the left.\<close>

fun sum_from :: "decimal \<Rightarrow> decimal list \<Rightarrow> error + decimal" where
  "sum_from acc [] = Inr acc"
| "sum_from acc (x # xs) = bind_err (dec_add acc x) (\<lambda>a. sum_from a xs)"

definition py_sum :: "decimal list \<Rightarrow> error + decimal" where
  "py_sum xs = sum_from 0 xs"

text \<open>
  \<^verbatim>\<open>round(p, 3)\<close> on a Decimal is \<^verbatim>\<open>p.quantize(Decimal('0.001'))\<close>: round-half-even to
  three places, \<^verbatim>\<open>InvalidOperation\<close> when the coefficient would exceed the precision.
\<close>

definition py_round3 :: "decimal \<Rightarrow> error + decimal" where
  "py_round3 p = (let n = rnd_even (p * 1000) in
     if 10 ^ 28 \<le> \<bar>n\<bar> then Inl InvalidOperation else Inr (of_int n / 1000))"

subsection \<open>Floats and the math module\<close>

text \<open>\<^verbatim>\<open>float(d)\<close> for a Decimal \<open>d\<close>: the nearest binary64 number, or an infinity.\<close>

definition double_round :: "rat \<Rightarrow> ext" where
  "double_round x = (let y = fl_round 2 53 (- 1022) x in
     if 2 ^ 1024 \<le> y then PInf else if y \<le> - (2 ^ 1024) then NInf else Fin y)"

text \<open>Integer square root by bisection: the invariant is \<open>lo\<^sup>2 \<le> n < hi\<^sup>2\<close>.\<close>

function isqrt_aux :: "int \<Rightarrow> int \<Rightarrow> int \<Rightarrow> int" where
  "isqrt_aux n lo hi =
     (if hi \<le> lo + 1 then lo
      else let m = (lo + hi) div 2 in
        if m * m \<le> n then isqrt_aux n m hi else isqrt_aux n lo m)"
  by pat_completeness auto
termination
  by (relation "measure (\<lambda>(n, lo, hi). nat (hi - lo))") auto

declare isqrt_aux.simps [simp del]

definition isqrt :: "int \<Rightarrow> int" where
  "isqrt n = isqrt_aux n 0 (n + 1)"

text \<open>
  The correctly rounded square root of a positive binary64 number \<open>x\<close>. With
  \<open>t = x * 4 ^ k \<ge> 2 ^ 110\<close> and \<open>r = \<lfloor>sqrt t\<rfloor> \<ge> 2 ^ 55\<close>, the root of \<open>x\<close> lies in
  \<open>[r, r + 1) / 2 ^ k\<close>; no rounding boundary of a 53-bit format is strictly inside that
  interval, so \<open>r\<close> (when the root is exact) or \<open>r + 1/2\<close> rounds as the root does.
\<close>

definition sqrt_double :: "rat \<Rightarrow> rat" where
  "sqrt_double x = (if x \<le> 0 then 0 else
     let k = 55 - adj_exp 2 x div 2;
         t = x * bpow 4 k;
         r = isqrt \<lfloor>t\<rfloor>;
         y = (of_int r + (if of_int (r * r) = t then 0 else 1/2)) * bpow 2 (- k)
     in fl_round 2 53 (- 1022) y)"

text \<open>\<^verbatim>\<open>math.sqrt\<close>: a negative argument raises \<^verbatim>\<open>ValueError\<close>.\<close>

fun math_sqrt :: "ext \<Rightarrow> error + ext" where
  "math_sqrt (Fin x) = (if x < 0 then Inl ValueError else Inr (Fin (sqrt_double x)))"
| "math_sqrt PInf = Inr PInf"
| "math_sqrt NInf = Inl ValueError"

text \<open>\<^verbatim>\<open>math.pi\<close> and the factor \<^verbatim>\<open>180.0 / pi\<close> of \<^verbatim>\<open>math.degrees\<close>, as binary64 numbers.\<close>

definition pi_double :: rat where
  "pi_double = 884279719003555 / 2 ^ 48"

definition rad_to_deg :: rat where
  "rad_to_deg = 1007958012753983 / 2 ^ 44"

definition degrees :: "rat \<Rightarrow> ext" where
  "degrees x = double_round (x * rad_to_deg)"

text \<open>
  \<^verbatim>\<open>math.acos\<close> applied to a Decimal: the argument is converted to a float, a float
  outside \<open>[-1, 1]\<close> raises \<^verbatim>\<open>ValueError\<close>. The values of the inverse cosine itself come
  from the platform's C library; they are the parameter \<open>facos\<close>.
\<close>

definition math_acos :: "(rat \<Rightarrow> rat) \<Rightarrow> decimal \<Rightarrow> error + rat" where
  "math_acos facos d = (case double_round d of
       Fin f \<Rightarrow> if f < - 1 \<or> 1 < f then Inl ValueError else Inr (facos f)
     | PInf \<Rightarrow> Inl ValueError
     | NInf \<Rightarrow> Inl ValueError)"

text \<open>The float literal \<^verbatim>\<open>1e-10\<close>.\<close>

definition DEFAULT_TOLERANCE :: rat where
  "DEFAULT_TOLERANCE = 7737125245533627 / 2 ^ 86"

text \<open>\<^verbatim>\<open>m < t\<close> for a Decimal \<open>m\<close> that may be infinite and a finite number \<open>t\<close>.\<close>

fun ext_less :: "ext \<Rightarrow> rat \<Rightarrow> bool" where
  "ext_less (Fin m) t = (m < t)"
| "ext_less PInf t = False"
| "ext_less NInf t = True"

fun ext_eq :: "ext \<Rightarrow> rat \<Rightarrow> bool" where
  "ext_eq (Fin m) t = (m = t)"
| "ext_eq PInf t = False"
| "ext_eq NInf t = False"

section \<open>The class Vector\<close>

record vector =
  coordinates :: "decimal list"
  length_v :: nat

text \<open>
  \<^verbatim>\<open>Vector(coordinates)\<close>: each item goes through \<^verbatim>\<open>Decimal\<close>, which is exact; the argument
  list of the model holds the values of the items.
\<close>

definition Vector :: "rat list \<Rightarrow> vector" where
  "Vector cs = \<lparr>coordinates = cs, length_v = length cs\<rparr>"

abbreviation size_mismatch :: error where
  "size_mismatch \<equiv> TypeError ''Vectors must have equal size.''"

text \<open>
  The methods below take their Vector argument as a value of type \<open>vector\<close>, so the test
  \<^verbatim>\<open>isinstance(vector, Vector)\<close> at the head of \<^verbatim>\<open>dot\<close>, \<^verbatim>\<open>is_parallel_with\<close>,
  \<^verbatim>\<open>is_orthogonal_with\<close>, \<^verbatim>\<open>angle_with\<close> and \<^verbatim>\<open>__eq__\<close> always passes. The tests on
  \<^verbatim>\<open>self.length\<close> are modelled as written. \<^verbatim>\<open>__mul__\<close> and \<^verbatim>\<open>__repr__\<close> are not needed here.
\<close>

text \<open>\<^verbatim>\<open>scale\<close>, for a scalar that \<^verbatim>\<open>Decimal\<close> accepts.\<close>

definition scale :: "vector \<Rightarrow> decimal \<Rightarrow> error + vector" where
  "scale v scalar =
     bind_err (map_err (\<lambda>c. dec_mul c scalar) (coordinates v)) (\<lambda>cs. Inr (Vector cs))"

definition dot :: "vector \<Rightarrow> vector \<Rightarrow> error + decimal" where
  "dot v w =
     (if length_v v \<noteq> length_v w then Inl size_mismatch
      else bind_err (map_err (\<lambda>(a, b). dec_mul a b) (zip (coordinates v) (coordinates w)))
             py_sum)"

definition magnitude :: "vector \<Rightarrow> error + ext" where
  "magnitude v =
     bind_err (map_err dec_pow2 (coordinates v)) (\<lambda>squares.
     bind_err (py_sum squares) (\<lambda>s. math_sqrt (double_round s)))"

text \<open>
  The \<^verbatim>\<open>try\<close> block of \<^verbatim>\<open>normalized\<close> holds the magnitude, the division and the scaling; its
  handler catches \<^verbatim>\<open>ZeroDivisionError\<close> only.
\<close>

definition normalized :: "vector \<Rightarrow> error + vector" where
  "normalized v =
     (case bind_err (magnitude v) (\<lambda>m. bind_err (dec_div 1 m) (scale v)) of
        Inl e \<Rightarrow> if e = ZeroDivisionError then Inl CannotNormalizeZeroVectorError else Inl e
      | Inr u \<Rightarrow> Inr u)"

definition is_zero :: "vector \<Rightarrow> rat \<Rightarrow> error + bool" where
  "is_zero v tolerance = bind_err (magnitude v) (\<lambda>m. Inr (ext_less m tolerance))"

text \<open>
  What the operand of \<^verbatim>\<open>+\<close> and \<^verbatim>\<open>-\<close> can be. For a \<^verbatim>\<open>Number\<close> that \<^verbatim>\<open>Decimal\<close> rejects (a
  Fraction, a complex), the conversion inside the list comprehension raises \<^verbatim>\<open>TypeError\<close>
  at the first coordinate, with a message that names the type of the operand; with no
  coordinate nothing is converted.
\<close>

datatype operand =
    OVector vector
  | ONumber rat          \<comment> \<open>an int, a float or a Decimal\<close>
  | OBadNumber string    \<comment> \<open>a \<^verbatim>\<open>Number\<close> that \<^verbatim>\<open>Decimal\<close> rejects, with the name of its type\<close>
  | OOther               \<comment> \<open>anything else\<close>

definition conversion_error :: "string \<Rightarrow> error" where
  "conversion_error ty = TypeError (''conversion from '' @ ty @ '' to Decimal is not supported'')"

fun dunder_add :: "vector \<Rightarrow> operand \<Rightarrow> error + vector" where
  "dunder_add v (OVector w) =
     bind_err (map_err (\<lambda>(a, b). dec_add a b) (zip (coordinates v) (coordinates w)))
       (\<lambda>cs. Inr (Vector cs))"
| "dunder_add v (ONumber n) =
     bind_err (map_err (\<lambda>e. dec_add e n) (coordinates v)) (\<lambda>cs. Inr (Vector cs))"
| "dunder_add v (OBadNumber ty) =
     (if coordinates v = [] then Inr (Vector []) else Inl (conversion_error ty))"
| "dunder_add v OOther = Inl (TypeError ''Addition argument must be a vector or a scalar.'')"

fun dunder_sub :: "vector \<Rightarrow> operand \<Rightarrow> error + vector" where
  "dunder_sub v (OVector w) =
     bind_err (map_err (\<lambda>(a, b). dec_sub a b) (zip (coordinates v) (coordinates w)))
       (\<lambda>cs. Inr (Vector cs))"
| "dunder_sub v (ONumber n) =
     bind_err (map_err (\<lambda>e. dec_sub e n) (coordinates v)) (\<lambda>cs. Inr (Vector cs))"
| "dunder_sub v (OBadNumber ty) =
     (if coordinates v = [] then Inr (Vector []) else Inl (conversion_error ty))"
| "dunder_sub v OOther = Inl (TypeError ''Subtraction argument must be a vector or a scalar.'')"

definition component_parallel_to :: "vector \<Rightarrow> vector \<Rightarrow> error + vector" where
  "component_parallel_to v w =
     (case normalized w of
        Inl e \<Rightarrow> if e = CannotNormalizeZeroVectorError then Inl NoUniqueParallelComponentError
                 else Inl e
      | Inr basis \<Rightarrow> bind_err (dot v basis) (\<lambda>weight. scale basis weight))"

definition component_orthogonal_to :: "vector \<Rightarrow> vector \<Rightarrow> error + vector" where
  "component_orthogonal_to v w =
     (case component_parallel_to v w of
        Inl e \<Rightarrow> if e = NoUniqueParallelComponentError then Inl NoUniqueOrthogonalComponentError
                 else Inl e
      | Inr projection \<Rightarrow> dunder_sub v (OVector projection))"

definition is_orthogonal_with :: "vector \<Rightarrow> vector \<Rightarrow> rat \<Rightarrow> error + bool" where
  "is_orthogonal_with v w tolerance =
     (if length_v v \<noteq> length_v w then Inl size_mismatch
      else bind_err (dot v w) (\<lambda>d. bind_err (dec_abs d) (\<lambda>a. Inr (a < tolerance))))"

definition angle_with :: "(rat \<Rightarrow> rat) \<Rightarrow> vector \<Rightarrow> vector \<Rightarrow> bool \<Rightarrow> error + ext" where
  "angle_with facos v w radians =
     (if length_v v \<noteq> length_v w then Inl size_mismatch
      else bind_err (normalized v) (\<lambda>u1.
           bind_err (normalized w) (\<lambda>u2.
           bind_err (dot u1 u2) (\<lambda>p.
           bind_err (py_round3 p) (\<lambda>r.
           bind_err (math_acos facos r) (\<lambda>teta.
           if radians then Inr (Fin teta) else Inr (degrees teta)))))))"

text \<open>The chain of \<^verbatim>\<open>or\<close> evaluates its operands from the left and stops at the first true one.\<close>

definition is_parallel_with :: "(rat \<Rightarrow> rat) \<Rightarrow> vector \<Rightarrow> vector \<Rightarrow> error + bool" where
  "is_parallel_with facos v w =
     (if length_v v \<noteq> length_v w then Inl size_mismatch
      else bind_err (is_zero v DEFAULT_TOLERANCE) (\<lambda>z1. if z1 then Inr True else
           bind_err (is_zero w DEFAULT_TOLERANCE) (\<lambda>z2. if z2 then Inr True else
           bind_err (angle_with facos v w True) (\<lambda>a1. if ext_eq a1 0 then Inr True else
           bind_err (angle_with facos v w True) (\<lambda>a2. Inr (ext_eq a2 pi_double))))))"

text \<open>\<^verbatim>\<open>__eq__\<close> against another Vector: the loop over \<^verbatim>\<open>range(self.length)\<close>.\<close>

fun eq_loop :: "decimal list \<Rightarrow> decimal list \<Rightarrow> nat list \<Rightarrow> bool" where
  "eq_loop xs ys [] = True"
| "eq_loop xs ys (i # is) = (if xs ! i \<noteq> ys ! i then False else eq_loop xs ys is)"

definition dunder_eq :: "vector \<Rightarrow> vector \<Rightarrow> bool" where
  "dunder_eq v w =
     (if length_v v \<noteq> length_v w then False
      else eq_loop (coordinates v) (coordinates w) [0..<length_v v])"




section \<open>Properties of the number model\<close>

lemma rnd_even_of_int: "rnd_even (of_int n) = n"
  by (simp add: rnd_even_def)

lemma rnd_even_nonneg: "0 \<le> x \<Longrightarrow> 0 \<le> rnd_even x"
  by (auto simp: rnd_even_def Let_def)

lemma rnd_even_small: "\<bar>x\<bar> < 1/2 \<Longrightarrow> rnd_even x = 0"
proof -
  assume a: "\<bar>x\<bar> < 1/2"
  consider "0 \<le> x" | "x < 0" by linarith
  then show ?thesis
  proof cases
    case 1
    with a have "\<lfloor>x\<rfloor> = 0" by (simp add: floor_eq_iff)
    with a 1 show ?thesis by (simp add: rnd_even_def Let_def)
  next
    case 2
    with a have f: "\<lfloor>x\<rfloor> = - 1" by (simp add: floor_eq_iff)
    with a 2 show ?thesis by (simp add: rnd_even_def Let_def)
  qed
qed

lemma bpow_powi: "bpow b k = of_int b powi k"
  by (simp add: bpow_def power_int_def field_simps)

lemma bpow_pos: "0 < b \<Longrightarrow> 0 < bpow b k"
  by (simp add: bpow_powi zero_less_power_int)

lemma ndigits_bounds:
  "0 < x \<Longrightarrow> 1 < b \<Longrightarrow>
     0 < ndigits b x \<and> b ^ nat (ndigits b x - 1) \<le> x \<and> x < b ^ nat (ndigits b x)"
proof (induction b x rule: ndigits.induct)
  case (1 b x)
  let ?y = "x div b"
  have nd: "ndigits b x = ndigits b ?y + 1"
    using "1.prems" by (subst ndigits.simps) simp
  show ?case
  proof (cases "?y = 0")
    case True
    then have "ndigits b ?y = 0" by (subst ndigits.simps) simp
    moreover from True "1.prems" have "x < b"
      by (metis div_pos_pos_trivial pos_imp_zdiv_pos_iff not_less less_le zero_less_one order_less_trans)
    ultimately show ?thesis using "1.prems" nd by simp
  next
    case False
    with "1.prems" have ypos: "0 < ?y"
      by (metis pos_imp_zdiv_nonneg_iff less_le order_less_imp_le zero_less_one order_less_trans)
    from "1.IH" [OF _ ypos] "1.prems"
    have ih: "0 < ndigits b ?y" "b ^ nat (ndigits b ?y - 1) \<le> ?y" "?y < b ^ nat (ndigits b ?y)"
      by simp_all
    have e1: "nat (ndigits b ?y + 1 - 1) = Suc (nat (ndigits b ?y - 1))"
      using ih(1) by simp
    have e2: "nat (ndigits b ?y + 1) = Suc (nat (ndigits b ?y))"
      using ih(1) by simp
    have dm: "x = b * ?y + x mod b" by simp
    have md: "0 \<le> x mod b" "x mod b < b" using "1.prems" by simp_all
    have "b * ?y \<le> x" using dm md by linarith
    moreover have "b * b ^ nat (ndigits b ?y - 1) \<le> b * ?y"
      using ih(2) "1.prems" by (simp add: mult_left_mono)
    ultimately have lo: "b ^ nat (ndigits b x - 1) \<le> x"
      unfolding nd e1 by simp
    have "b * (?y + 1) = b * ?y + b" by (simp add: distrib_left)
    then have "x < b * (?y + 1)"
      using dm md by linarith
    moreover have "?y + 1 \<le> b ^ nat (ndigits b ?y)" using ih(3) by simp
    then have "b * (?y + 1) \<le> b * b ^ nat (ndigits b ?y)"
      using "1.prems" by (simp add: mult_left_mono)
    ultimately have hi: "x < b ^ nat (ndigits b x)"
      unfolding nd e2 by simp
    from lo hi ih(1) nd show ?thesis by simp
  qed
qed

lemma isqrt_aux_correct:
  "0 \<le> lo \<Longrightarrow> lo < hi \<Longrightarrow> lo * lo \<le> n \<Longrightarrow> n < hi * hi \<Longrightarrow>
     0 \<le> isqrt_aux n lo hi \<and> isqrt_aux n lo hi * isqrt_aux n lo hi \<le> n
       \<and> n < (isqrt_aux n lo hi + 1) * (isqrt_aux n lo hi + 1)"
proof (induction n lo hi rule: isqrt_aux.induct)
  case (1 n lo hi)
  show ?case
  proof (cases "hi \<le> lo + 1")
    case True
    with "1.prems" have "hi = lo + 1" by simp
    with "1.prems" True show ?thesis by (subst (1 2 3 4 5) isqrt_aux.simps) simp
  next
    case False
    let ?m = "(lo + hi) div 2"
    from False have m: "lo < ?m" "?m < hi" by simp_all
    show ?thesis
    proof (cases "?m * ?m \<le> n")
      case True
      have "isqrt_aux n lo hi = isqrt_aux n ?m hi"
        using False True by (subst isqrt_aux.simps) (simp add: Let_def)
      moreover have "0 \<le> ?m" using m "1.prems" by simp
      ultimately show ?thesis
        using "1.IH"(1) [OF False refl True] m True "1.prems" by simp
    next
      case F2: False
      have "isqrt_aux n lo hi = isqrt_aux n lo ?m"
        using False F2 by (subst isqrt_aux.simps) (simp add: Let_def)
      then show ?thesis
        using "1.IH"(2) [OF False refl F2] m F2 "1.prems" by simp
    qed
  qed
qed

lemma isqrt_correct:
  "0 \<le> n \<Longrightarrow> 0 \<le> isqrt n \<and> isqrt n * isqrt n \<le> n \<and> n < (isqrt n + 1) * (isqrt n + 1)"
proof -
  assume n: "0 \<le> n"
  have "n < (n + 1) * (n + 1)" using n by (simp add: algebra_simps) (smt (verit) mult_nonneg_nonneg)
  with n show ?thesis
    unfolding isqrt_def by (intro isqrt_aux_correct) simp_all
qed

lemma isqrt_square: "0 \<le> a \<Longrightarrow> isqrt (a * a) = a"
proof -
  assume a: "0 \<le> a"
  let ?r = "isqrt (a * a)"
  from a have c: "0 \<le> ?r" "?r * ?r \<le> a * a" "a * a < (?r + 1) * (?r + 1)"
    using isqrt_correct [of "a * a"] by simp_all
  have "\<not> ?r < a"
  proof
    assume "?r < a"
    then have "?r + 1 \<le> a" by simp
    with c(1) have "(?r + 1) * (?r + 1) \<le> a * a" by (intro mult_mono) simp_all
    with c(3) show False by simp
  qed
  moreover have "\<not> a < ?r"
  proof
    assume "a < ?r"
    with a have "a * a < ?r * ?r" by (intro mult_strict_mono') simp_all
    with c(2) show False by simp
  qed
  ultimately show ?thesis by simp
qed

lemma adj_exp_bounds:
  assumes b: "1 < b" and x: "x \<noteq> 0"
  shows "bpow b (adj_exp b x) \<le> \<bar>x\<bar> \<and> \<bar>x\<bar> < bpow b (adj_exp b x + 1)"
proof -
  obtain p q where pq: "quotient_of \<bar>x\<bar> = (p, q)" by (cases "quotient_of \<bar>x\<bar>")
  let ?B = "of_int b :: rat"
  let ?P = "of_int p :: rat"
  let ?Q = "of_int q :: rat"
  let ?dp = "ndigits b p"
  let ?dq = "ndigits b q"
  have B: "1 < ?B" "?B \<noteq> 0" "0 < ?B" using b by simp_all
  have q: "0 < q" using pq quotient_of_denom_pos by blast
  have ax: "\<bar>x\<bar> = ?P / ?Q" using pq by (rule quotient_of_div)
  have "0 < \<bar>x\<bar>" using x by simp
  with ax q have p: "0 < p" by (simp add: zero_less_divide_iff)
  from ndigits_bounds [OF p b]
  have np: "0 < ?dp" "b ^ nat (?dp - 1) \<le> p" "p < b ^ nat ?dp" by simp_all
  from ndigits_bounds [OF q b]
  have nq: "0 < ?dq" "b ^ nat (?dq - 1) \<le> q" "q < b ^ nat ?dq" by simp_all
  have pw: "\<And>k. 0 \<le> k \<Longrightarrow> ?B powi k = of_int (b ^ nat k)"
    by (simp add: power_int_def)
  have P1: "?B powi (?dp - 1) \<le> ?P" using np pw [of "?dp - 1"] by simp
  have P2: "?P < ?B powi ?dp" using np pw [of "?dp"] by simp
  have Q1: "?B powi (?dq - 1) \<le> ?Q" using nq pw [of "?dq - 1"] by simp
  have Q2: "?Q < ?B powi ?dq" using nq pw [of "?dq"] by simp
  have pos: "\<And>k. 0 < ?B powi k" using B by (simp add: zero_less_power_int)
  have "?P / ?Q < ?B powi ?dp / ?B powi (?dq - 1)"
    using p P2 pos Q1 by (intro frac_less) simp_all
  also have "\<dots> = ?B powi (?dp - ?dq + 1)"
    using B power_int_diff [of ?B ?dp "?dq - 1"] by (simp add: algebra_simps)
  finally have up: "\<bar>x\<bar> < bpow b (?dp - ?dq + 1)" by (simp add: ax bpow_powi)
  have "?B powi (?dp - 1) / ?B powi ?dq < ?P / ?Q"
    using pos P1 q Q2 by (intro frac_less2) simp_all
  moreover have "?B powi (?dp - 1) / ?B powi ?dq = ?B powi (?dp - ?dq - 1)"
    using B power_int_diff [of ?B "?dp - 1" ?dq] by (simp add: algebra_simps)
  ultimately have lo: "bpow b (?dp - ?dq - 1) < \<bar>x\<bar>" by (simp add: ax bpow_powi)
  show ?thesis
  proof (cases "bpow b (?dp - ?dq) \<le> \<bar>x\<bar>")
    case True
    then have "adj_exp b x = ?dp - ?dq" by (simp add: adj_exp_def pq Let_def)
    with True up show ?thesis by simp
  next
    case False
    then have "adj_exp b x = ?dp - ?dq - 1" by (simp add: adj_exp_def pq Let_def)
    with False lo show ?thesis by simp
  qed
qed

lemma adj_exp_less:
  assumes b: "1 < b" and x: "x \<noteq> 0" and lt: "\<bar>x\<bar> < bpow b n"
  shows "adj_exp b x < n"
proof (rule ccontr)
  assume "\<not> adj_exp b x < n"
  then have "n \<le> adj_exp b x" by simp
  then have "bpow b n \<le> bpow b (adj_exp b x)"
    using b by (simp add: bpow_powi power_int_increasing)
  with adj_exp_bounds [OF b x] lt show False by simp
qed

lemma adj_exp_ge:
  assumes b: "1 < b" and x: "x \<noteq> 0" and le: "bpow b n \<le> \<bar>x\<bar>"
  shows "n \<le> adj_exp b x"
proof (rule ccontr)
  assume "\<not> n \<le> adj_exp b x"
  then have "adj_exp b x + 1 \<le> n" by simp
  then have "bpow b (adj_exp b x + 1) \<le> bpow b n"
    using b by (simp add: bpow_powi power_int_increasing)
  with adj_exp_bounds [OF b x] le show False by simp
qed

lemma fl_round_0: "fl_round b p emin 0 = 0"
  by (simp add: fl_round_def)

lemma fl_round_nonneg: "0 < b \<Longrightarrow> 0 \<le> x \<Longrightarrow> 0 \<le> fl_round b p emin x"
  using bpow_pos [of b] by (simp add: fl_round_def Let_def rnd_even_nonneg less_imp_le)

lemma fl_round_underflow:
  assumes b: "1 < b" and p: "0 < p" and lt: "\<bar>x\<bar> < bpow b (emin - p + 1) / 2"
  shows "fl_round b p emin x = 0"
proof (cases "x = 0")
  case True
  then show ?thesis by (simp add: fl_round_def)
next
  case False
  let ?q = "bpow b (emin - p + 1)"
  have qpos: "0 < ?q" using b by (simp add: bpow_pos)
  with lt have "\<bar>x\<bar> < ?q" by simp
  from adj_exp_less [OF b False this] p have "max (adj_exp b x) emin = emin" by simp
  moreover have "\<bar>x / ?q\<bar> < 1 / 2" using lt qpos by (simp add: field_simps)
  then have "rnd_even (x / ?q) = 0" by (rule rnd_even_small)
  ultimately show ?thesis using False by (simp add: fl_round_def Let_def)
qed

lemma fl_round_exact:
  assumes b: "1 < b" and p: "0 < p" and x: "x = of_int m * bpow b k"
    and m: "\<bar>m\<bar> < b ^ nat p" and k: "emin - p + 1 \<le> k"
  shows "fl_round b p emin x = x"
proof (cases "x = 0")
  case True
  then show ?thesis by (simp add: fl_round_def)
next
  case False
  let ?B = "of_int b :: rat"
  have B: "1 < ?B" "?B \<noteq> 0" "0 < ?B" using b by simp_all
  have "\<bar>x\<bar> = of_int \<bar>m\<bar> * ?B powi k"
    using B by (simp add: x bpow_powi abs_mult zero_less_power_int less_imp_le)
  also have "\<dots> < of_int (b ^ nat p) * ?B powi k"
    using m B by (intro mult_strict_right_mono) (simp_all add: zero_less_power_int del: of_int_power)
  also have "of_int (b ^ nat p) = ?B powi p" using p by (simp add: power_int_def)
  also have "?B powi p * ?B powi k = ?B powi (p + k)"
    using B power_int_add [of ?B p k] by simp
  finally have "adj_exp b x < p + k" using adj_exp_less [OF b False] by (simp add: bpow_powi)
  define e where "e = max (adj_exp b x) emin"
  define j where "j = k - (e - p + 1)"
  have j: "0 \<le> j" using \<open>adj_exp b x < p + k\<close> k by (simp add: e_def j_def)
  have "x / bpow b (e - p + 1) = of_int m * ?B powi j"
    using B by (simp add: x bpow_powi j_def power_int_diff)
  also have "\<dots> = of_int (m * b ^ nat j)" using j by (simp add: power_int_def)
  finally have "rnd_even (x / bpow b (e - p + 1)) = m * b ^ nat j"
    by (simp only: rnd_even_of_int)
  then have "fl_round b p emin x = of_int (m * b ^ nat j) * bpow b (e - p + 1)"
    using False by (simp add: fl_round_def Let_def e_def)
  also have "\<dots> = of_int m * (?B powi j * ?B powi (e - p + 1))"
    using j by (simp add: power_int_def bpow_powi)
  also have "?B powi j * ?B powi (e - p + 1) = ?B powi k"
    using B power_int_add [of ?B j "e - p + 1"] by (simp add: j_def)
  finally show ?thesis by (simp add: x bpow_powi)
qed

lemma rnd_even_cases: "rnd_even x = \<lfloor>x\<rfloor> \<or> rnd_even x = \<lfloor>x\<rfloor> + 1"
  by (simp add: rnd_even_def Let_def)

lemma rnd_even_ge_floor: "\<lfloor>x\<rfloor> \<le> rnd_even x"
  using rnd_even_cases [of x] by auto

lemma rnd_even_le_ceiling: "rnd_even x \<le> \<lceil>x\<rceil>"
proof (cases "x = of_int \<lfloor>x\<rfloor>")
  case True
  then have "rnd_even x = \<lfloor>x\<rfloor>" by (metis rnd_even_of_int)
  then show ?thesis by (simp add: floor_le_ceiling)
next
  case False
  then have "\<lceil>x\<rceil> = \<lfloor>x\<rfloor> + 1" by (metis ceiling_altdef)
  then show ?thesis using rnd_even_cases [of x] by auto
qed

lemma rnd_even_abs_le: "\<bar>x\<bar> \<le> of_int n \<Longrightarrow> \<bar>rnd_even x\<bar> \<le> n"
proof -
  assume a: "\<bar>x\<bar> \<le> of_int n"
  then have "x \<le> of_int n" "of_int (- n) \<le> x" by simp_all
  then have "\<lceil>x\<rceil> \<le> n" "- n \<le> \<lfloor>x\<rfloor>" by (simp_all add: ceiling_le_iff le_floor_iff)
  with rnd_even_ge_floor [of x] rnd_even_le_ceiling [of x] show ?thesis by simp
qed

lemma rnd_even_neg: "rnd_even (- x) = - rnd_even x"
proof (cases "x = of_int \<lfloor>x\<rfloor>")
  case True
  then obtain n where "x = of_int n" ..
  then show ?thesis by (simp add: rnd_even_of_int flip: of_int_minus)
next
  case False
  then have c: "\<lceil>x\<rceil> = \<lfloor>x\<rfloor> + 1" by (metis ceiling_altdef)
  have f: "\<lfloor>- x\<rfloor> = - \<lfloor>x\<rfloor> - 1" using c by (simp add: floor_minus)
  have d: "0 < x - of_int \<lfloor>x\<rfloor>" using False by (smt (verit) of_int_floor_le diff_gt_0_iff_gt less_le)
  show ?thesis
    unfolding rnd_even_def Let_def f using d by (auto simp: field_simps)
qed

lemma adj_exp_neg: "adj_exp b (- x) = adj_exp b x"
  by (simp add: adj_exp_def)

lemma fl_round_neg: "fl_round b p emin (- x) = - fl_round b p emin x"
  by (simp add: fl_round_def adj_exp_neg rnd_even_neg Let_def)

lemma fl_round_representable:
  assumes b: "1 < b" and p: "0 < p"
  shows "\<exists>m k. fl_round b p emin x = of_int m * bpow b k \<and> \<bar>m\<bar> < b ^ nat p \<and> emin - p + 1 \<le> k"
proof (cases "x = 0")
  case True
  have "fl_round b p emin x = of_int 0 * bpow b (emin - p + 1)" using True by (simp add: fl_round_def)
  moreover have "\<bar>0::int\<bar> < b ^ nat p" using b by simp
  ultimately show ?thesis by blast
next
  case False
  let ?B = "of_int b :: rat"
  have B: "1 < ?B" "?B \<noteq> 0" "0 < ?B" using b by simp_all
  define e where "e = max (adj_exp b x) emin"
  define q where "q = bpow b (e - p + 1)"
  define n where "n = rnd_even (x / q)"
  have fr: "fl_round b p emin x = of_int n * q"
    using False by (simp add: fl_round_def Let_def e_def q_def n_def)
  have qpos: "0 < q" using b by (simp add: q_def bpow_pos)
  have "\<bar>x\<bar> < bpow b (adj_exp b x + 1)" using adj_exp_bounds [OF b False] by simp
  also have "\<dots> \<le> bpow b (e + 1)"
    using B by (simp add: bpow_powi e_def power_int_increasing)
  also have "\<dots> = of_int (b ^ nat p) * q"
    using B p power_int_add [of ?B p "e - p + 1"] by (simp add: bpow_powi q_def power_int_def)
  finally have "\<bar>x / q\<bar> < of_int (b ^ nat p)" using qpos by (simp add: field_simps)
  then have nle: "\<bar>n\<bar> \<le> b ^ nat p" unfolding n_def by (intro rnd_even_abs_le) simp
  show ?thesis
  proof (cases "\<bar>n\<bar> = b ^ nat p")
    case False
    with nle have "\<bar>n\<bar> < b ^ nat p" by simp
    moreover have "emin - p + 1 \<le> e - p + 1" by (simp add: e_def)
    ultimately show ?thesis using fr unfolding q_def by blast
  next
    case True
    have "of_int n = of_int (sgn n) * (of_int \<bar>n\<bar> :: rat)"
      by (metis of_int_mult sgn_mult_abs)
    also have "of_int \<bar>n\<bar> = ?B powi p" using True p by (simp add: power_int_def)
    finally have "fl_round b p emin x = of_int (sgn n) * (?B powi p * ?B powi (e - p + 1))"
      using fr by (simp add: q_def bpow_powi)
    also have "?B powi p * ?B powi (e - p + 1) = bpow b (e + 1)"
      using B power_int_add [of ?B p "e - p + 1"] by (simp add: bpow_powi)
    finally have "fl_round b p emin x = of_int (sgn n) * bpow b (e + 1)" .
    moreover have "\<bar>sgn n\<bar> < b ^ nat p"
    proof -
      have "\<bar>sgn n\<bar> \<le> 1" by (simp add: abs_sgn_eq)
      moreover have "1 < b ^ nat p" using b p by (simp add: one_less_power)
      ultimately show ?thesis by simp
    qed
    moreover have "emin - p + 1 \<le> e + 1" using p by (simp add: e_def)
    ultimately show ?thesis by blast
  qed
qed

lemma fl_round_idem:
  assumes b: "1 < b" and p: "0 < p"
  shows "fl_round b p emin (fl_round b p emin x) = fl_round b p emin x"
proof -
  from fl_round_representable [OF b p, of emin x]
  obtain m k where "fl_round b p emin x = of_int m * bpow b k" "\<bar>m\<bar> < b ^ nat p" "emin - p + 1 \<le> k"
    by blast
  then show ?thesis by (intro fl_round_exact [OF b p])
qed

lemma fl_round_abs: "fl_round b p emin \<bar>x\<bar> = \<bar>fl_round b p emin x\<bar>" if "0 < b"
proof (cases "0 \<le> x")
  case True
  then show ?thesis using fl_round_nonneg [OF that True] by simp
next
  case False
  then have "0 \<le> - x" by simp
  from fl_round_nonneg [OF that this] have "fl_round b p emin x \<le> 0"
    by (simp add: fl_round_neg)
  with False show ?thesis by (simp add: fl_round_neg abs_if)
qed

lemma adj_exp_eq:
  assumes b: "1 < b" and lo: "bpow b n \<le> \<bar>x\<bar>" and hi: "\<bar>x\<bar> < bpow b (n + 1)"
  shows "adj_exp b x = n"
proof -
  have "0 < bpow b n" using b by (simp add: bpow_pos)
  with lo have x: "x \<noteq> 0" by auto
  from adj_exp_less [OF b x hi] adj_exp_ge [OF b x lo] show ?thesis by simp
qed

lemma bpow_add: "b \<noteq> 0 \<Longrightarrow> bpow b (i + j) = bpow b i * bpow b j"
  by (simp add: bpow_powi power_int_add)

lemma bpow_4: "bpow 4 k = bpow 2 k * bpow 2 k"
proof -
  have "(of_int 4 :: rat) = of_int 2 * of_int 2" by simp
  then show ?thesis unfolding bpow_powi by (simp only: power_int_mult_distrib)
qed

lemma rnd_even_ge_1: "1 \<le> x \<Longrightarrow> 1 \<le> rnd_even x"
proof -
  assume "1 \<le> x"
  then have "1 \<le> \<lfloor>x\<rfloor>" by (simp add: le_floor_iff)
  then show ?thesis using rnd_even_ge_floor [of x] by (rule order_trans)
qed

lemma fl_round_pos:
  assumes b: "1 < b" and p: "0 < p" and y: "bpow b (emin - p + 1) \<le> y"
  shows "0 < fl_round b p emin y"
proof -
  let ?B = "of_int b :: rat"
  have B: "1 \<le> ?B" using b by simp
  have ypos: "0 < y" using y bpow_pos [of b "emin - p + 1"] b by simp
  then have y0: "y \<noteq> 0" by simp
  define e where "e = max (adj_exp b y) emin"
  define q where "q = bpow b (e - p + 1)"
  have qpos: "0 < q" using b by (simp add: q_def bpow_pos)
  have "q \<le> y"
  proof (cases "emin \<le> adj_exp b y")
    case True
    then have "e - p + 1 \<le> adj_exp b y" using p by (simp add: e_def)
    then have "q \<le> bpow b (adj_exp b y)"
      using B by (simp add: q_def bpow_powi power_int_increasing)
    with adj_exp_bounds [OF b y0] ypos show ?thesis by simp
  next
    case False
    then have "e = emin" by (simp add: e_def)
    with y show ?thesis by (simp add: q_def)
  qed
  then have "1 \<le> y / q" using qpos by (simp add: field_simps)
  then have "1 \<le> rnd_even (y / q)" by (rule rnd_even_ge_1)
  then have "0 < of_int (rnd_even (y / q)) * q" using qpos by simp
  then show ?thesis using y0 by (simp add: fl_round_def Let_def e_def q_def)
qed

lemma fl_round_nonzero_ge:
  assumes b: "1 < b" and nz: "fl_round b p emin x \<noteq> 0"
  shows "bpow b (emin - p + 1) \<le> \<bar>fl_round b p emin x\<bar>"
proof -
  let ?B = "of_int b :: rat"
  have B: "1 \<le> ?B" using b by simp
  from nz have x0: "x \<noteq> 0" by (auto simp: fl_round_def)
  define e where "e = max (adj_exp b x) emin"
  define q where "q = bpow b (e - p + 1)"
  define n where "n = rnd_even (x / q)"
  have fr: "fl_round b p emin x = of_int n * q"
    using x0 by (simp add: fl_round_def Let_def e_def q_def n_def)
  have qpos: "0 < q" using b by (simp add: q_def bpow_pos)
  from nz fr have "n \<noteq> 0" by auto
  then have "1 \<le> \<bar>n\<bar>" by simp
  then have "(1::rat) \<le> of_int \<bar>n\<bar>" by (simp only: of_int_1_le_iff)
  then have "q \<le> \<bar>of_int n * q\<bar>" using qpos by (simp add: abs_mult)
  moreover have "bpow b (emin - p + 1) \<le> q"
    using B by (simp add: q_def e_def bpow_powi power_int_increasing)
  ultimately show ?thesis using fr by simp
qed

lemma isqrt_ge:
  assumes a: "0 \<le> a" and n: "a * a \<le> n"
  shows "a \<le> isqrt n"
proof (rule ccontr)
  assume "\<not> a \<le> isqrt n"
  then have lt: "isqrt n + 1 \<le> a" by simp
  have n0: "0 \<le> n" using n a by (smt (verit) mult_nonneg_nonneg)
  from isqrt_correct [OF n0] have c: "0 \<le> isqrt n" "n < (isqrt n + 1) * (isqrt n + 1)"
    by simp_all
  from lt c(1) have "(isqrt n + 1) * (isqrt n + 1) \<le> a * a" by (intro mult_mono) simp_all
  with c(2) n show False by simp
qed

lemma rnd_even_error: "\<bar>of_int (rnd_even x) - x\<bar> \<le> 1 / 2"
proof -
  have "of_int \<lfloor>x\<rfloor> \<le> x" "x < of_int \<lfloor>x\<rfloor> + 1" by linarith+
  then show ?thesis by (auto simp: rnd_even_def Let_def abs_le_iff)
qed

lemma fl_round_error:
  assumes b: "1 < b" and p: "0 < p"
  shows "\<bar>fl_round b p emin x - x\<bar> \<le> (\<bar>x\<bar> * bpow b (1 - p) + bpow b (emin - p + 1)) / 2"
proof (cases "x = 0")
  case True
  have "0 \<le> bpow b (emin - p + 1)" using b bpow_pos [of b "emin - p + 1"] by simp
  with True show ?thesis by (simp add: fl_round_def)
next
  case False
  let ?B = "of_int b :: rat"
  have B: "1 < ?B" "?B \<noteq> 0" "0 < ?B" using b by simp_all
  define e where "e = max (adj_exp b x) emin"
  define q where "q = bpow b (e - p + 1)"
  define n where "n = rnd_even (x / q)"
  have fr: "fl_round b p emin x = of_int n * q"
    using False by (simp add: fl_round_def Let_def e_def q_def n_def)
  have qpos: "0 < q" using b by (simp add: q_def bpow_pos)
  have "of_int n * q - x = (of_int n - x / q) * q" using qpos by (simp add: field_simps)
  then have "\<bar>of_int n * q - x\<bar> = \<bar>of_int n - x / q\<bar> * q"
    using qpos by (simp add: abs_mult)
  also have "\<dots> \<le> (1 / 2) * q"
    unfolding n_def using qpos rnd_even_error [of "x / q"] by (intro mult_right_mono) simp_all
  finally have err: "\<bar>fl_round b p emin x - x\<bar> \<le> q / 2" by (simp add: fr)
  have p1: "0 \<le> bpow b (1 - p)" "0 \<le> bpow b (emin - p + 1)"
    using b bpow_pos [of b] by (simp_all add: less_imp_le)
  have "q \<le> \<bar>x\<bar> * bpow b (1 - p) + bpow b (emin - p + 1)"
  proof (cases "emin \<le> adj_exp b x")
    case True
    then have "q = bpow b (adj_exp b x) * bpow b (1 - p)"
      using bpow_add [of b "adj_exp b x" "1 - p"] b by (simp add: q_def e_def algebra_simps)
    also have "\<dots> \<le> \<bar>x\<bar> * bpow b (1 - p)"
      using adj_exp_bounds [OF b False] p1 by (intro mult_right_mono) simp_all
    finally show ?thesis using p1 by simp
  next
    case F: False
    then have "q = bpow b (emin - p + 1)" by (simp add: q_def e_def)
    moreover have "0 \<le> \<bar>x\<bar> * bpow b (1 - p)" using p1 by simp
    ultimately show ?thesis by simp
  qed
  with err show ?thesis by simp
qed

lemma rnd_even_numeral: "rnd_even (numeral n) = numeral n"
  using rnd_even_of_int [of "numeral n"] by simp

lemma double_round_nonneg:
  "0 \<le> x \<Longrightarrow> double_round x = PInf \<or> (\<exists>y. 0 \<le> y \<and> double_round x = Fin y)"
  using fl_round_nonneg [of 2 x 53 "- 1022"]
  by (simp add: double_round_def Let_def)

lemma double_round_0: "double_round 0 = Fin 0"
  by (simp add: double_round_def fl_round_0)

lemma sqrt_double_nonneg: "0 \<le> sqrt_double x"
proof (cases "x \<le> 0")
  case True
  then show ?thesis by (simp add: sqrt_double_def)
next
  case False
  define k where "k = 55 - adj_exp 2 x div 2"
  define t where "t = x * bpow 4 k"
  define r where "r = isqrt \<lfloor>t\<rfloor>"
  have "0 \<le> t" using False bpow_pos [of 4 k] by (simp add: t_def)
  then have "0 \<le> r" using isqrt_correct [of "\<lfloor>t\<rfloor>"] by (simp add: r_def)
  then have "0 \<le> (of_int r + (if of_int (r * r) = t then 0 else 1/2)) * bpow 2 (- k)"
    using bpow_pos [of 2 "- k"] by simp
  then have "0 \<le> fl_round 2 53 (- 1022)
      ((of_int r + (if of_int (r * r) = t then 0 else 1/2)) * bpow 2 (- k))"
    by (intro fl_round_nonneg) simp_all
  then show ?thesis
    using False by (simp add: sqrt_double_def Let_def k_def t_def r_def)
qed

lemma sqrt_double_0: "sqrt_double 0 = 0"
  by (simp add: sqrt_double_def)

lemma sqrt_double_square:
  assumes m: "2 ^ 52 \<le> m" "m < 2 ^ 53" and j: "- 1074 \<le> j"
  shows "sqrt_double ((of_int m * bpow 2 j)\<^sup>2) = of_int m * bpow 2 j"
proof -
  define a where "a = of_int m * bpow 2 j"
  define x where "x = a\<^sup>2"
  have mpos: "0 < m" using m(1) by (smt (verit) zero_less_power)
  have pj: "0 < bpow 2 j" by (simp add: bpow_pos)
  have apos: "0 < a" using mpos pj by (simp add: a_def)
  have xpos: "0 < x" using apos by (simp add: x_def)
  have x_eq: "x = of_int (m * m) * bpow 2 (2 * j)"
    using bpow_add [of 2 j j] by (simp add: x_def a_def power2_eq_square algebra_simps)
  have "(2::int) ^ 52 * 2 ^ 52 \<le> m * m" using m(1) by (intro mult_mono) simp_all
  then have m1: "(2::int) ^ 104 \<le> m * m" by simp
  have "m * m < 2 ^ 53 * 2 ^ 53" using m(2) mpos by (intro mult_strict_mono) simp_all
  then have m2: "m * m < 2 ^ 106" by simp
  have "bpow 2 (104 + 2 * j) = of_int (2 ^ 104) * bpow 2 (2 * j)"
    using bpow_add [of 2 104 "2 * j"] by (simp add: bpow_def)
  also have "\<dots> \<le> x"
    unfolding x_eq using m1 bpow_pos [of 2 "2 * j"]
    by (intro mult_right_mono) (simp_all del: of_int_power of_int_mult)
  finally have lo: "bpow 2 (104 + 2 * j) \<le> \<bar>x\<bar>" using xpos by simp
  have "x < of_int (2 ^ 106) * bpow 2 (2 * j)"
    unfolding x_eq using m2 bpow_pos [of 2 "2 * j"]
    by (intro mult_strict_right_mono) (simp_all del: of_int_power of_int_mult)
  also have "\<dots> = bpow 2 (106 + 2 * j)"
    using bpow_add [of 2 106 "2 * j"] by (simp add: bpow_def)
  finally have hi: "\<bar>x\<bar> < bpow 2 (106 + 2 * j)" using xpos by simp
  have x0: "x \<noteq> 0" using xpos by simp
  have "104 + 2 * j \<le> adj_exp 2 x" "adj_exp 2 x < 106 + 2 * j"
    using adj_exp_ge [OF _ x0 lo] adj_exp_less [OF _ x0 hi] by simp_all
  then have "adj_exp 2 x div 2 = 52 + j" by presburger
  then have k: "55 - adj_exp 2 x div 2 = 3 - j" by simp
  have "bpow 2 (3 - j) * bpow 2 j = 8"
    using bpow_add [of 2 "3 - j" j] by (simp add: bpow_def)
  then have a8: "a * bpow 2 (3 - j) = of_int (8 * m)"
    by (simp add: a_def algebra_simps)
  have t: "x * bpow 4 (3 - j) = of_int ((8 * m) * (8 * m))"
  proof -
    have "x * bpow 4 (3 - j) = (a * bpow 2 (3 - j)) * (a * bpow 2 (3 - j))"
      by (simp add: bpow_4 x_def power2_eq_square)
    then show ?thesis by (simp only: a8 of_int_mult)
  qed
  have r: "isqrt \<lfloor>rat_of_int ((8 * m) * (8 * m))\<rfloor> = 8 * m"
    unfolding floor_of_int using mpos by (intro isqrt_square) simp
  have "bpow 2 (j - 3) * 8 = bpow 2 j"
    using bpow_add [of 2 "j - 3" 3] by (simp add: bpow_def)
  then have y: "of_int (8 * m) * bpow 2 (- (3 - j)) = a"
    by (simp add: a_def algebra_simps)
  have nx: "\<not> x \<le> 0" using xpos by simp
  have "sqrt_double x = fl_round 2 53 (- 1022) a"
    by (simp only: sqrt_double_def Let_def k t r nx if_False if_True simp_thms add_0_right y)
  also have "\<dots> = a"
    using m mpos j by (intro fl_round_exact [where m = m and k = j]) (simp_all add: a_def)
  finally show ?thesis by (simp add: x_def a_def)
qed

lemma double_round_exact:
  assumes "x = of_int m * bpow 2 k" "\<bar>m\<bar> < 2 ^ 53" "- 1074 \<le> k" "\<bar>x\<bar> < 2 ^ 1024"
  shows "double_round x = Fin x"
proof -
  have "fl_round 2 53 (- 1022) x = x"
    using assms by (intro fl_round_exact [where m = m and k = k]) simp_all
  with assms(4) show ?thesis by (auto simp: double_round_def abs_less_iff)
qed

lemma double_round_numeral:
  "numeral n < (2::int) ^ 53 \<Longrightarrow> double_round (numeral n) = Fin (numeral n)"
proof -
  assume a: "numeral n < (2::int) ^ 53"
  have "(numeral n :: int) < 2 ^ 1024" using a by (rule less_trans) simp
  then have "(of_int (numeral n) :: rat) < of_int (2 ^ 1024)" by (simp only: of_int_less_iff)
  then have "\<bar>numeral n :: rat\<bar> < 2 ^ 1024" by simp
  with a show ?thesis
    by (intro double_round_exact [where m = "numeral n" and k = 0]) (simp_all add: bpow_def)
qed

lemma sqrt_double_25: "sqrt_double 25 = 5"
  using sqrt_double_square [of 5629499534213120 "- 50"] by (simp add: bpow_def)

lemma sqrt_double_pos:
  assumes x: "bpow 2 (- 1074) \<le> x"
  shows "0 < sqrt_double x"
proof -
  have xpos: "0 < x" using x bpow_pos [of 2 "- 1074"] by simp
  then have x0: "x \<noteq> 0" by simp
  define e where "e = adj_exp 2 x"
  define k where "k = 55 - e div 2"
  define t where "t = x * bpow 4 k"
  define r where "r = isqrt \<lfloor>t\<rfloor>"
  define y where "y = (of_int r + (if of_int (r * r) = t then 0 else 1/2)) * bpow 2 (- k)"
  have sd: "sqrt_double x = fl_round 2 53 (- 1022) y"
    using xpos by (simp add: sqrt_double_def Let_def e_def k_def t_def r_def y_def)
  have e_lo: "- 1074 \<le> e" unfolding e_def using x xpos by (intro adj_exp_ge) simp_all
  have "bpow 2 e \<le> x" using adj_exp_bounds [of 2 x] x0 xpos by (simp add: e_def)
  then have "bpow 2 e * bpow 4 k \<le> t"
    unfolding t_def using bpow_pos [of 4 k] by (intro mult_right_mono) simp_all
  moreover have "bpow 2 e * bpow 4 k = bpow 2 (e + 2 * k)"
    using bpow_add [of 2 e "k + k"] bpow_add [of 2 k k] by (simp add: bpow_4)
  moreover have "110 \<le> e + 2 * k" unfolding k_def by presburger
  then have "bpow 2 110 \<le> bpow 2 (e + 2 * k)"
    unfolding bpow_powi by (intro power_int_increasing) simp_all
  ultimately have "bpow 2 110 \<le> t" by simp
  moreover have "bpow 2 110 = of_int (2 ^ 55 * 2 ^ 55)" by (simp add: bpow_def)
  ultimately have "of_int (2 ^ 55 * 2 ^ 55) \<le> t" by simp
  then have "2 ^ 55 * 2 ^ 55 \<le> \<lfloor>t\<rfloor>" by (simp only: le_floor_iff)
  then have r55: "2 ^ 55 \<le> r" unfolding r_def by (intro isqrt_ge) simp_all
  have pk: "0 < bpow 2 (- k)" by (simp add: bpow_pos)
  have "of_int (2 ^ 55) * bpow 2 (- k) \<le> of_int r * bpow 2 (- k)"
    using r55 pk by (intro mult_right_mono) (simp_all del: of_int_power)
  also have "\<dots> \<le> y" using pk by (simp add: y_def)
  finally have "bpow 2 55 * bpow 2 (- k) \<le> y" by (simp add: bpow_def)
  moreover have "bpow 2 55 * bpow 2 (- k) = bpow 2 (55 - k)"
    using bpow_add [of 2 55 "- k"] by simp
  moreover have "bpow 2 (- 1022 - 53 + 1) \<le> bpow 2 (55 - k)"
    unfolding bpow_powi using e_lo by (intro power_int_increasing) (simp_all add: k_def)
  ultimately have "bpow 2 (- 1022 - 53 + 1) \<le> y" by simp
  then have "0 < fl_round 2 53 (- 1022) y" by (intro fl_round_pos) simp_all
  with sd show ?thesis by simp
qed

lemma double_round_Fin_cases:
  "double_round x = Fin y \<Longrightarrow> y = 0 \<or> bpow 2 (- 1074) \<le> \<bar>y\<bar>"
  using fl_round_nonzero_ge [of 2 53 "- 1022" x]
  by (auto simp: double_round_def Let_def split: if_splits)

lemma sqrt_double_eq_0_iff:
  "double_round x = Fin y \<Longrightarrow> 0 \<le> y \<Longrightarrow> sqrt_double y = 0 \<longleftrightarrow> y = 0"
  using double_round_Fin_cases [of x y] sqrt_double_pos [of y] by (auto simp: sqrt_double_0)

lemma double_round_1: "double_round 1 = Fin 1"
  by (rule double_round_exact [where m = 1 and k = 0]) (simp_all add: bpow_def)

lemma fl_round_1e_10: "fl_round 2 53 (- 1022) (1 / 10 ^ 10) = 7737125245533627 / 2 ^ 86"
  by code_simp

lemma DEFAULT_TOLERANCE_float: "double_round (1 / 10 ^ 10) = Fin DEFAULT_TOLERANCE"
  unfolding double_round_def fl_round_1e_10 DEFAULT_TOLERANCE_def by simp

lemma fl_round_rad_to_deg:
  "fl_round 2 53 (- 1022) (180 / (884279719003555 / 2 ^ 48)) = 1007958012753983 / 2 ^ 44"
  by code_simp

lemma rad_to_deg_float: "double_round (180 / pi_double) = Fin rad_to_deg"
  unfolding double_round_def pi_double_def fl_round_rad_to_deg rad_to_deg_def by simp

lemma eq_loop_iff: "eq_loop xs ys is \<longleftrightarrow> (\<forall>i\<in>set is. xs ! i = ys ! i)"
  by (induction "is") simp_all

subsection \<open>Sequencing\<close>

lemma bind_err_Inr [simp]: "bind_err (Inr x) f = f x"
  by (simp add: bind_err_def)

lemma bind_err_Inl [simp]: "bind_err (Inl e) f = Inl e"
  by (simp add: bind_err_def)

lemma bind_err_eq_Inr: "bind_err m f = Inr y \<longleftrightarrow> (\<exists>x. m = Inr x \<and> f x = Inr y)"
  by (cases m) simp_all

lemma bind_err_eq_Inl:
  "bind_err m f = Inl e \<longleftrightarrow> m = Inl e \<or> (\<exists>x. m = Inr x \<and> f x = Inl e)"
  by (cases m) simp_all

lemma map_err_eq_Inr:
  "map_err f xs = Inr ys \<longleftrightarrow> list_all2 (\<lambda>x y. f x = Inr y) xs ys"
proof (induction xs arbitrary: ys)
  case Nil
  then show ?case by auto
next
  case (Cons x xs)
  show ?case
    by (cases ys) (auto simp: bind_err_eq_Inr Cons.IH)
qed

lemma map_err_eq_Inl: "map_err f xs = Inl e \<Longrightarrow> \<exists>x\<in>set xs. f x = Inl e"
  by (induction xs) (auto simp: bind_err_eq_Inl)

lemma map_err_total:
  "\<forall>x\<in>set xs. \<exists>y. f x = Inr y \<Longrightarrow> \<exists>ys. map_err f xs = Inr ys"
proof (induction xs)
  case Nil
  then show ?case by simp
next
  case (Cons x xs)
  then obtain y ys where "f x = Inr y" "map_err f xs = Inr ys" by auto
  then show ?case by simp
qed

lemma map_err_length: "map_err f xs = Inr ys \<Longrightarrow> length ys = length xs"
  by (simp add: map_err_eq_Inr list_all2_lengthD)

lemma map_err_nth:
  "map_err f xs = Inr ys \<Longrightarrow> i < length xs \<Longrightarrow> f (xs ! i) = Inr (ys ! i)"
  by (auto simp: map_err_eq_Inr dest: list_all2_nthD)

subsection \<open>Rounding does not cross a representable number\<close>

lemma fl_round_nonpos: "0 < b \<Longrightarrow> x \<le> 0 \<Longrightarrow> fl_round b p emin x \<le> 0"
  using fl_round_nonneg [of b "- x" p emin] by (simp add: fl_round_neg)

lemma fl_round_le_repr:
  assumes b: "1 < b" and p: "0 < p"
    and y: "y = of_int m * bpow b k" and m: "0 < m" "m < b ^ nat p"
    and k: "emin - p + 1 \<le> k" and xy: "x \<le> y"
  shows "fl_round b p emin x \<le> y"
proof (cases "x \<le> 0")
  case True
  have "0 \<le> y" using m(1) bpow_pos [of b k] b by (simp add: y)
  moreover have "fl_round b p emin x \<le> 0" using True b by (intro fl_round_nonpos) simp_all
  ultimately show ?thesis by simp
next
  case False
  then have xpos: "0 < x" and x0: "x \<noteq> 0" by simp_all
  let ?B = "of_int b :: rat"
  have B: "1 < ?B" "?B \<noteq> 0" "0 < ?B" "1 \<le> ?B" using b by simp_all
  have "y < of_int (b ^ nat p) * ?B powi k"
    unfolding y bpow_powi using m(2) B
    by (intro mult_strict_right_mono) (simp_all add: zero_less_power_int del: of_int_power)
  also have "of_int (b ^ nat p) = ?B powi p" using p by (simp add: power_int_def)
  also have "?B powi p * ?B powi k = ?B powi (p + k)"
    using B power_int_add [of ?B p k] by simp
  finally have "\<bar>x\<bar> < bpow b (p + k)" using xy xpos by (simp add: bpow_powi)
  from adj_exp_less [OF b x0 this] have ax: "adj_exp b x < p + k" .
  define e where "e = max (adj_exp b x) emin"
  define q where "q = bpow b (e - p + 1)"
  define j where "j = k - (e - p + 1)"
  have j: "0 \<le> j" using ax k by (simp add: e_def j_def)
  have qpos: "0 < q" using b by (simp add: q_def bpow_pos)
  have "bpow b k = ?B powi j * q"
    using B power_int_add [of ?B j "e - p + 1"] by (simp add: j_def q_def bpow_powi)
  then have yq: "y = of_int (m * b ^ nat j) * q"
    using j by (simp add: y power_int_def)
  have "x / q \<le> of_int (m * b ^ nat j)"
    using xy qpos unfolding yq by (simp add: field_simps)
  then have "\<lceil>x / q\<rceil> \<le> m * b ^ nat j" by (simp only: ceiling_le_iff)
  with rnd_even_le_ceiling [of "x / q"] have "rnd_even (x / q) \<le> m * b ^ nat j" by simp
  then have "(of_int (rnd_even (x / q)) :: rat) \<le> of_int (m * b ^ nat j)"
    by (simp only: of_int_le_iff)
  then have "of_int (rnd_even (x / q)) * q \<le> of_int (m * b ^ nat j) * q"
    using qpos by (intro mult_right_mono) simp_all
  then show ?thesis
    using x0 unfolding yq by (simp add: fl_round_def Let_def e_def q_def)
qed

lemma fl_round_ge_repr:
  assumes b: "1 < b" and p: "0 < p"
    and y: "y = of_int m * bpow b k" and m: "0 < m" "m < b ^ nat p"
    and k: "emin - p + 1 \<le> k" and xy: "y \<le> x"
  shows "y \<le> fl_round b p emin x"
proof -
  let ?B = "of_int b :: rat"
  have B: "1 < ?B" "?B \<noteq> 0" "0 < ?B" "1 \<le> ?B" using b by simp_all
  have ypos: "0 < y" using m(1) bpow_pos [of b k] b by (simp add: y)
  then have xpos: "0 < x" and x0: "x \<noteq> 0" using xy by simp_all
  define e where "e = max (adj_exp b x) emin"
  define q where "q = bpow b (e - p + 1)"
  have qpos: "0 < q" using b by (simp add: q_def bpow_pos)
  have fr: "fl_round b p emin x = of_int (rnd_even (x / q)) * q"
    using x0 by (simp add: fl_round_def Let_def e_def q_def)
  show ?thesis
  proof (cases "e - p + 1 \<le> k")
    case True
    define j where "j = k - (e - p + 1)"
    have j: "0 \<le> j" using True by (simp add: j_def)
    have "bpow b k = ?B powi j * q"
      using B power_int_add [of ?B j "e - p + 1"] by (simp add: j_def q_def bpow_powi)
    then have yq: "y = of_int (m * b ^ nat j) * q"
      using j by (simp add: y power_int_def)
    have "of_int (m * b ^ nat j) \<le> x / q"
      using xy qpos unfolding yq by (simp add: field_simps)
    then have "m * b ^ nat j \<le> \<lfloor>x / q\<rfloor>" by (simp only: le_floor_iff)
    with rnd_even_ge_floor [of "x / q"] have "m * b ^ nat j \<le> rnd_even (x / q)" by simp
    then have "(of_int (m * b ^ nat j) :: rat) \<le> of_int (rnd_even (x / q))"
      by (simp only: of_int_le_iff)
    then have "of_int (m * b ^ nat j) * q \<le> of_int (rnd_even (x / q)) * q"
      using qpos by (intro mult_right_mono) simp_all
    then show ?thesis unfolding fr yq .
  next
    case False
    then have ek: "p + k \<le> e" by simp
    with k have "emin < e" using p by simp
    then have ea: "e = adj_exp b x" by (simp add: e_def split: if_splits add: max_def)
    have "bpow b e \<le> x" using adj_exp_bounds [OF b x0] xpos by (simp add: ea)
    moreover have "bpow b e = of_int (b ^ nat (p - 1)) * q"
      using B p power_int_add [of ?B "p - 1" "e - p + 1"]
      by (simp add: q_def bpow_powi power_int_def)
    ultimately have "of_int (b ^ nat (p - 1)) \<le> x / q"
      using qpos by (simp add: field_simps)
    then have "b ^ nat (p - 1) \<le> \<lfloor>x / q\<rfloor>" by (simp only: le_floor_iff)
    with rnd_even_ge_floor [of "x / q"] have "b ^ nat (p - 1) \<le> rnd_even (x / q)" by simp
    then have "(of_int (b ^ nat (p - 1)) :: rat) \<le> of_int (rnd_even (x / q))"
      by (simp only: of_int_le_iff)
    then have "of_int (b ^ nat (p - 1)) * q \<le> of_int (rnd_even (x / q)) * q"
      using qpos by (intro mult_right_mono) simp_all
    then have ge: "bpow b e \<le> fl_round b p emin x"
      unfolding fr \<open>bpow b e = of_int (b ^ nat (p - 1)) * q\<close> .
    have "y < of_int (b ^ nat p) * ?B powi k"
      unfolding y bpow_powi using m(2) B
      by (intro mult_strict_right_mono) (simp_all add: zero_less_power_int del: of_int_power)
    also have "of_int (b ^ nat p) = ?B powi p" using p by (simp add: power_int_def)
    also have "?B powi p * ?B powi k = ?B powi (p + k)"
      using B power_int_add [of ?B p k] by simp
    also have "\<dots> \<le> ?B powi e" using ek B by (intro power_int_increasing) simp_all
    finally have "y < bpow b e" by (simp add: bpow_powi)
    with ge show ?thesis by simp
  qed
qed

lemma bpow_one_repr: "bpow b k = of_int 1 * bpow b k"
  by simp

lemma fl_round_le_bpow:
  assumes "1 < b" "0 < p" "emin - p + 1 \<le> k" "x \<le> bpow b k"
  shows "fl_round b p emin x \<le> bpow b k"
  using assms by (intro fl_round_le_repr [where m = 1 and k = k]) (simp_all add: one_less_power)

lemma fl_round_ge_bpow:
  assumes "1 < b" "0 < p" "emin - p + 1 \<le> k" "bpow b k \<le> x"
  shows "bpow b k \<le> fl_round b p emin x"
  using assms by (intro fl_round_ge_repr [where m = 1 and k = k]) (simp_all add: one_less_power)

lemma fl_round_abs_le_bpow:
  assumes "1 < b" "0 < p" "emin - p + 1 \<le> k" "\<bar>x\<bar> \<le> bpow b k"
  shows "\<bar>fl_round b p emin x\<bar> \<le> bpow b k"
proof -
  have "\<bar>fl_round b p emin x\<bar> = fl_round b p emin \<bar>x\<bar>"
    using assms(1) by (simp add: fl_round_abs)
  also have "\<dots> \<le> bpow b k" using assms by (intro fl_round_le_bpow) simp_all
  finally show ?thesis .
qed

lemma fl_round_abs_ge_bpow:
  assumes "1 < b" "0 < p" "emin - p + 1 \<le> k" "bpow b k \<le> \<bar>x\<bar>"
  shows "bpow b k \<le> \<bar>fl_round b p emin x\<bar>"
proof -
  have "bpow b k \<le> fl_round b p emin \<bar>x\<bar>" using assms by (intro fl_round_ge_bpow) simp_all
  also have "\<dots> = \<bar>fl_round b p emin x\<bar>" using assms(1) by (simp add: fl_round_abs)
  finally show ?thesis .
qed

subsection \<open>The final step of a Decimal operation\<close>

lemma bpow_mono: "1 \<le> b \<Longrightarrow> i \<le> j \<Longrightarrow> bpow b i \<le> bpow b j"
  by (simp add: bpow_powi power_int_increasing)

lemma dec_fix_eq_Inr: "dec_fix p x = Inr y \<Longrightarrow> y = fl_round 10 p (- 999999) x"
  by (simp add: dec_fix_def Let_def split: if_splits)

lemma dec_fix_eq_Inl: "dec_fix p x = Inl e \<Longrightarrow> e = Overflow"
  by (simp add: dec_fix_def Let_def split: if_splits)

lemma dec_fix_0: "dec_fix p 0 = Inr 0"
  by (simp add: dec_fix_def fl_round_0)

lemma dec_fix_ok:
  assumes p: "0 < p" and x: "\<bar>x\<bar> \<le> bpow 10 k" and k: "k \<le> 999999" "- 999999 - p + 1 \<le> k"
  shows "dec_fix p x = Inr (fl_round 10 p (- 999999) x)"
    and "\<bar>fl_round 10 p (- 999999) x\<bar> \<le> bpow 10 k"
proof -
  let ?y = "fl_round 10 p (- 999999) x"
  show le: "\<bar>?y\<bar> \<le> bpow 10 k" using p x k by (intro fl_round_abs_le_bpow) simp_all
  have "bpow 10 k < bpow 10 1000000"
    unfolding bpow_powi using k by (intro power_int_strict_increasing) simp_all
  with le have lt: "\<bar>?y\<bar> < bpow 10 1000000" by simp
  have "\<not> (?y \<noteq> 0 \<and> 999999 < adj_exp 10 ?y)"
  proof
    assume a: "?y \<noteq> 0 \<and> 999999 < adj_exp 10 ?y"
    then have "adj_exp 10 ?y < 1000000" using lt by (intro adj_exp_less) simp_all
    with a show False by simp
  qed
  then show "dec_fix p x = Inr ?y" by (simp add: dec_fix_def Let_def)
qed

lemma dec_fix_overflow:
  assumes p: "0 < p" and x: "bpow 10 1000000 \<le> \<bar>x\<bar>"
  shows "dec_fix p x = Inl Overflow"
proof -
  let ?y = "fl_round 10 p (- 999999) x"
  have ge: "bpow 10 1000000 \<le> \<bar>?y\<bar>" using p x by (intro fl_round_abs_ge_bpow) simp_all
  moreover have "0 < bpow 10 1000000" by (simp add: bpow_pos)
  ultimately have y0: "?y \<noteq> 0" by auto
  from adj_exp_ge [OF _ y0 ge] have "1000000 \<le> adj_exp 10 ?y" by simp
  with y0 show ?thesis by (simp add: dec_fix_def Let_def)
qed

lemma dec_fix_Inr_bound:
  assumes "dec_fix p x = Inr y" "0 < p"
  shows "\<bar>x\<bar> < bpow 10 1000000"
proof (rule ccontr)
  assume "\<not> \<bar>x\<bar> < bpow 10 1000000"
  then have "bpow 10 1000000 \<le> \<bar>x\<bar>" by simp
  from dec_fix_overflow [OF assms(2) this] assms(1) show False by simp
qed

lemma dec_fix_exact:
  assumes p: "0 < p" and x: "x = of_int m * bpow 10 k" and m: "\<bar>m\<bar> < 10 ^ nat p"
    and k: "- 999999 - p + 1 \<le> k" "k + p \<le> 1000000"
  shows "dec_fix p x = Inr x"
proof -
  have fx: "fl_round 10 p (- 999999) x = x"
    using p x m k by (intro fl_round_exact [where m = m and k = k]) simp_all
  have "\<bar>x\<bar> = of_int \<bar>m\<bar> * bpow 10 k"
    using bpow_pos [of 10 k] by (simp add: x abs_mult)
  also have "\<dots> \<le> of_int (10 ^ nat p) * bpow 10 k"
    using m bpow_pos [of 10 k] by (intro mult_right_mono) (simp_all del: of_int_power)
  also have "of_int (10 ^ nat p) = bpow 10 p" using p by (simp add: bpow_def)
  also have "bpow 10 p * bpow 10 k = bpow 10 (p + k)" using bpow_add [of 10 p k] by simp
  also have "\<dots> \<le> bpow 10 1000000" using k by (intro bpow_mono) simp_all
  finally have le: "\<bar>x\<bar> \<le> bpow 10 1000000" .
  have "\<not> (x \<noteq> 0 \<and> 999999 < adj_exp 10 x)"
  proof
    assume a: "x \<noteq> 0 \<and> 999999 < adj_exp 10 x"
    have "\<bar>x\<bar> < of_int (10 ^ nat p) * bpow 10 k"
      unfolding \<open>\<bar>x\<bar> = of_int \<bar>m\<bar> * bpow 10 k\<close> using m bpow_pos [of 10 k]
      by (intro mult_strict_right_mono) (simp_all del: of_int_power)
    also have "of_int (10 ^ nat p) = bpow 10 p" using p by (simp add: bpow_def)
    also have "bpow 10 p * bpow 10 k = bpow 10 (p + k)" using bpow_add [of 10 p k] by simp
    also have "\<dots> \<le> bpow 10 1000000" using k by (intro bpow_mono) simp_all
    finally have "\<bar>x\<bar> < bpow 10 1000000" .
    then have "adj_exp 10 x < 1000000" using a by (intro adj_exp_less) simp_all
    with a show False by simp
  qed
  then show ?thesis by (simp add: dec_fix_def Let_def fx)
qed

lemma dec_fix_neg:
  "dec_fix p (- x) = (case dec_fix p x of Inl e \<Rightarrow> Inl e | Inr y \<Rightarrow> Inr (- y))"
  by (simp add: dec_fix_def Let_def fl_round_neg adj_exp_neg)

lemma dec_fix_idem:
  assumes "0 < p" "dec_fix p x = Inr y"
  shows "dec_fix p y = Inr y"
proof -
  let ?y = "fl_round 10 p (- 999999) x"
  from assms(2) have y: "y = ?y" and n: "\<not> (?y \<noteq> 0 \<and> 999999 < adj_exp 10 ?y)"
    by (simp_all add: dec_fix_def Let_def split: if_splits)
  have "fl_round 10 p (- 999999) ?y = ?y" using assms(1) by (intro fl_round_idem) simp_all
  with n show ?thesis unfolding y dec_fix_def Let_def by (simp only: if_False)
qed

lemma dec_fix_nonneg: "dec_fix p x = Inr y \<Longrightarrow> 0 \<le> x \<Longrightarrow> 0 \<le> y"
  using fl_round_nonneg [of 10 x p "- 999999"] by (auto dest: dec_fix_eq_Inr)

lemma dec_fix_abs:
  "dec_fix p \<bar>x\<bar> = (case dec_fix p x of Inl e \<Rightarrow> Inl e | Inr y \<Rightarrow> Inr \<bar>y\<bar>)"
proof (cases "0 \<le> x")
  case True
  then show ?thesis
    by (cases "dec_fix p x") (auto dest: dec_fix_nonneg)
next
  case False
  then have n: "\<bar>x\<bar> = - x" "0 \<le> - x" by simp_all
  show ?thesis
  proof (cases "dec_fix p x")
    case (Inl e)
    then show ?thesis by (simp add: n dec_fix_neg)
  next
    case (Inr y)
    then have "dec_fix p (- x) = Inr (- y)" by (simp add: dec_fix_neg)
    moreover from dec_fix_nonneg [OF this n(2)] have "\<bar>y\<bar> = - y" by simp
    ultimately show ?thesis using Inr by (simp add: n)
  qed
qed

lemma dec_fix_fixed_repr:
  assumes p: "0 < p" and f: "dec_fix p y = Inr y" and y: "0 < y"
  shows "\<exists>m k. y = of_int m * bpow 10 k \<and> 0 < m \<and> m < 10 ^ nat p \<and> - 999999 - p + 1 \<le> k"
proof -
  from dec_fix_eq_Inr [OF f] have fy: "y = fl_round 10 p (- 999999) y" .
  from fl_round_representable [of 10 p "- 999999" y] p
  obtain m k where mk: "fl_round 10 p (- 999999) y = of_int m * bpow 10 k"
    "\<bar>m\<bar> < 10 ^ nat p" "- 999999 - p + 1 \<le> k" by auto
  have "0 < of_int m * bpow 10 k" using y fy mk(1) by simp
  then have "0 < m" using bpow_pos [of 10 k] by (simp add: zero_less_mult_iff)
  with mk fy show ?thesis by (intro exI [of _ m] exI [of _ k]) simp
qed

lemma dec_fix_ge_fixed:
  assumes p: "0 < p" and f: "dec_fix p y = Inr y" and y: "0 \<le> y" "y \<le> x"
    and z: "dec_fix p x = Inr z"
  shows "y \<le> z"
proof (cases "y = 0")
  case True
  with y dec_fix_nonneg [OF z] show ?thesis by simp
next
  case False
  with y have ypos: "0 < y" by simp
  from dec_fix_fixed_repr [OF p f ypos] obtain m k where
    mk: "y = of_int m * bpow 10 k" "0 < m" "m < 10 ^ nat p" "- 999999 - p + 1 \<le> k" by blast
  have "y \<le> fl_round 10 p (- 999999) x"
    using p mk y(2) by (intro fl_round_ge_repr [where m = m and k = k]) simp_all
  with dec_fix_eq_Inr [OF z] show ?thesis by simp
qed

lemma dec_fix_lt_bpow:
  assumes p: "0 < p" and z: "dec_fix p x = Inr z" and lt: "z < bpow 10 k"
    and k: "- 999999 - p + 1 \<le> k"
  shows "x < bpow 10 k"
proof (rule ccontr)
  assume "\<not> x < bpow 10 k"
  then have "bpow 10 k \<le> x" by simp
  then have "bpow 10 k \<le> fl_round 10 p (- 999999) x"
    using p k by (intro fl_round_ge_bpow) simp_all
  with dec_fix_eq_Inr [OF z] lt show False by simp
qed

subsection \<open>Decimal operations\<close>

lemma ctx_round_0: "ctx_round 0 = Inr 0"
  by (simp add: ctx_round_def dec_fix_0)

lemma ctx_round_eq_Inl: "ctx_round x = Inl e \<Longrightarrow> e = Overflow"
  unfolding ctx_round_def by (rule dec_fix_eq_Inl)

lemma ctx_round_exact:
  "x = of_int m * bpow 10 k \<Longrightarrow> \<bar>m\<bar> < 10 ^ 28 \<Longrightarrow> - 1000026 \<le> k \<Longrightarrow> k \<le> 999972
     \<Longrightarrow> ctx_round x = Inr x"
  unfolding ctx_round_def by (rule dec_fix_exact [where m = m and k = k]) simp_all

lemma ctx_round_of_int: "\<bar>m\<bar> < 10 ^ 28 \<Longrightarrow> ctx_round (of_int m) = Inr (of_int m)"
  by (rule ctx_round_exact [where m = m and k = 0]) (simp_all add: bpow_def)

lemma ctx_round_numeral:
  "numeral n < (10::int) ^ 28 \<Longrightarrow> ctx_round (numeral n) = Inr (numeral n)"
  using ctx_round_of_int [of "numeral n"] by simp

lemma ctx_round_1: "ctx_round 1 = Inr 1"
  using ctx_round_of_int [of 1] by simp

lemma ctx_round_idem: "ctx_round x = Inr y \<Longrightarrow> ctx_round y = Inr y"
  unfolding ctx_round_def by (rule dec_fix_idem) simp_all


lemma ctx_round_abs:
  "ctx_round \<bar>x\<bar> = (case ctx_round x of Inl e \<Rightarrow> Inl e | Inr y \<Rightarrow> Inr \<bar>y\<bar>)"
  by (simp add: ctx_round_def dec_fix_abs)

lemma ctx_round_nonneg: "ctx_round x = Inr y \<Longrightarrow> 0 \<le> x \<Longrightarrow> 0 \<le> y"
  unfolding ctx_round_def by (rule dec_fix_nonneg)

lemma ctx_round_ok:
  assumes "\<bar>x\<bar> \<le> bpow 10 k" "k \<le> 999999" "- 1000026 \<le> k"
  shows "\<exists>y. ctx_round x = Inr y \<and> \<bar>y\<bar> \<le> bpow 10 k"
  using dec_fix_ok [of 28 x k] assms by (simp add: ctx_round_def)

lemma ctx_round_ge_fixed:
  "ctx_round y = Inr y \<Longrightarrow> 0 \<le> y \<Longrightarrow> y \<le> x \<Longrightarrow> ctx_round x = Inr z \<Longrightarrow> y \<le> z"
  unfolding ctx_round_def by (rule dec_fix_ge_fixed [where p = 28]) simp_all

lemma dec_etiny_pos: "0 < dec_etiny"
  by (simp add: dec_etiny_def bpow_pos)

lemma ctx_round_error:
  assumes "ctx_round x = Inr y"
  shows "\<bar>y - x\<bar> \<le> (\<bar>x\<bar> / 10 ^ 27 + dec_etiny) / 2"
proof -
  have a: "bpow 10 (1 - 28) = 1 / 10 ^ 27" by (simp add: bpow_def)
  have b: "bpow 10 (- 999999 - 28 + 1) = dec_etiny" by (simp add: dec_etiny_def)
  have "\<bar>fl_round 10 28 (- 999999) x - x\<bar>
      \<le> (\<bar>x\<bar> * bpow 10 (1 - 28) + bpow 10 (- 999999 - 28 + 1)) / 2"
    by (rule fl_round_error) simp_all
  moreover have "y = fl_round 10 28 (- 999999) x"
    using assms unfolding ctx_round_def by (rule dec_fix_eq_Inr)
  ultimately show ?thesis by (simp only: a b times_divide_eq_right mult_1_right)
qed

lemma dec_mul_commute: "dec_mul a b = dec_mul b a"
  by (simp add: dec_mul_def mult.commute)


lemma dec_abs_rounded: "ctx_round x = Inr d \<Longrightarrow> dec_abs d = Inr \<bar>d\<bar>"
  using ctx_round_idem [of x d] by (simp add: dec_abs_def ctx_round_abs)

lemmas dec_op_defs = dec_add_def dec_sub_def dec_mul_def dec_neg_def dec_abs_def

subsection \<open>Sums\<close>

lemma dec_add_eq_Inl: "dec_add a b = Inl e \<Longrightarrow> e = Overflow"
  unfolding dec_add_def by (rule ctx_round_eq_Inl)

lemma dec_sub_eq_Inl: "dec_sub a b = Inl e \<Longrightarrow> e = Overflow"
  unfolding dec_sub_def by (rule ctx_round_eq_Inl)

lemma dec_mul_eq_Inl: "dec_mul a b = Inl e \<Longrightarrow> e = Overflow"
  unfolding dec_mul_def by (rule ctx_round_eq_Inl)

lemma sum_from_eq_Inl: "sum_from a xs = Inl e \<Longrightarrow> e = Overflow"
proof (induction xs arbitrary: a)
  case Nil
  then show ?case by simp
next
  case (Cons x xs)
  show ?case
  proof (cases "dec_add a x")
    case (Inl e')
    with Cons.prems have "e' = e" by simp
    with Inl show ?thesis by (auto dest: dec_add_eq_Inl)
  next
    case (Inr a')
    with Cons.prems have "sum_from a' xs = Inl e" by simp
    then show ?thesis by (rule Cons.IH)
  qed
qed

lemma sum_from_rounded:
  "sum_from a xs = Inr s \<Longrightarrow> ctx_round a = Inr a \<Longrightarrow> ctx_round s = Inr s"
proof (induction xs arbitrary: a)
  case Nil
  then show ?case by simp
next
  case (Cons x xs)
  from Cons.prems(1) obtain a' where a': "dec_add a x = Inr a'" "sum_from a' xs = Inr s"
    by (auto simp: bind_err_eq_Inr)
  from a'(1) have "ctx_round a' = Inr a'" unfolding dec_add_def by (rule ctx_round_idem)
  with a'(2) show ?case by (rule Cons.IH)
qed

lemma py_sum_rounded: "py_sum xs = Inr s \<Longrightarrow> ctx_round s = Inr s"
  unfolding py_sum_def using ctx_round_0 by (rule sum_from_rounded [rotated])

lemma sum_from_zeros: "\<forall>x\<in>set xs. x = 0 \<Longrightarrow> sum_from 0 xs = Inr 0"
proof (induction xs)
  case Nil
  then show ?case by simp
next
  case (Cons x xs)
  then have "x = 0" "sum_from 0 xs = Inr 0" by simp_all
  moreover have "dec_add 0 0 = Inr 0" by (simp add: dec_add_def ctx_round_0)
  ultimately show ?case by simp
qed

lemma sum_from_ge:
  assumes "sum_from a xs = Inr s" "ctx_round a = Inr a" "0 \<le> a"
    and "\<forall>x\<in>set xs. 0 \<le> x \<and> ctx_round x = Inr x"
  shows "a \<le> s \<and> (\<forall>x\<in>set xs. x \<le> s)"
  using assms
proof (induction xs arbitrary: a)
  case Nil
  then show ?case by simp
next
  case (Cons x xs)
  from Cons.prems(1) obtain a' where a': "dec_add a x = Inr a'" "sum_from a' xs = Inr s"
    by (auto simp: bind_err_eq_Inr)
  have x: "0 \<le> x" "ctx_round x = Inr x" using Cons.prems(4) by simp_all
  have rest: "\<forall>y\<in>set xs. 0 \<le> y \<and> ctx_round y = Inr y" using Cons.prems(4) by simp
  have r: "ctx_round (a + x) = Inr a'" using a'(1) by (simp only: dec_add_def)
  have ra: "ctx_round a' = Inr a'" using r by (rule ctx_round_idem)
  have "a \<le> a + x" using x(1) by simp
  with Cons.prems(2,3) have aa: "a \<le> a'" using r by (rule ctx_round_ge_fixed)
  have "x \<le> a + x" using Cons.prems(3) by simp
  with x(2,1) have xa: "x \<le> a'" using r by (rule ctx_round_ge_fixed)
  have a0: "0 \<le> a'" using aa Cons.prems(3) by (rule order_trans [rotated])
  from Cons.IH [OF a'(2) ra a0 rest] have ih: "a' \<le> s" "\<forall>y\<in>set xs. y \<le> s" by blast+
  have "a \<le> s" using aa ih(1) by (rule order_trans)
  moreover have "x \<le> s" using xa ih(1) by (rule order_trans)
  ultimately show ?case using ih(2) by simp
qed

subsection \<open>Squares\<close>

lemma dec_pow2_eq_Inl: "dec_pow2 c = Inl e \<Longrightarrow> e = Overflow"
proof (cases "dec_fix 31 (c * c)")
  case (Inl e')
  moreover assume "dec_pow2 c = Inl e"
  ultimately have "dec_fix 31 (c * c) = Inl e" by (simp add: dec_pow2_def)
  then show ?thesis by (rule dec_fix_eq_Inl)
next
  case (Inr y)
  moreover assume "dec_pow2 c = Inl e"
  ultimately have "ctx_round y = Inl e" by (simp add: dec_pow2_def)
  then show ?thesis by (rule ctx_round_eq_Inl)
qed

lemma dec_pow2_0: "dec_pow2 0 = Inr 0"
  by (simp add: dec_pow2_def dec_fix_0 ctx_round_0)

lemma dec_pow2_Inr:
  assumes "dec_pow2 c = Inr t"
  shows "0 \<le> t" and "ctx_round t = Inr t" and "\<bar>c * c\<bar> < bpow 10 1000000"
proof -
  from assms obtain y where y: "dec_fix 31 (c * c) = Inr y" "ctx_round y = Inr t"
    by (auto simp: dec_pow2_def bind_err_eq_Inr)
  have "0 \<le> y" using y(1) by (rule dec_fix_nonneg) simp
  with y(2) show "0 \<le> t" by (rule ctx_round_nonneg)
  show "ctx_round t = Inr t" using y(2) by (rule ctx_round_idem)
  show "\<bar>c * c\<bar> < bpow 10 1000000" using y(1) by (rule dec_fix_Inr_bound) simp
qed

lemma dec_pow2_lt_bpow:
  assumes t: "dec_pow2 c = Inr t" and lt: "t < bpow 10 k" and k: "- 1000026 \<le> k"
  shows "c * c < bpow 10 k"
proof -
  from t obtain y where y: "dec_fix 31 (c * c) = Inr y" "dec_fix 28 y = Inr t"
    by (auto simp: dec_pow2_def bind_err_eq_Inr ctx_round_def)
  have "y < bpow 10 k" using y(2) lt k by (intro dec_fix_lt_bpow [of 28 y t k]) simp_all
  then show ?thesis using y(1) k by (intro dec_fix_lt_bpow [of 31 "c * c" y k]) simp_all
qed

lemma dec_pow2_exact:
  assumes "c * c = of_int m * bpow 10 k" "\<bar>m\<bar> < 10 ^ 28" "- 1000026 \<le> k" "k \<le> 999969"
  shows "dec_pow2 c = Inr (c * c)"
proof -
  have "\<bar>m\<bar> < 10 ^ 31" using assms(2) by (rule less_trans) simp
  then have "dec_fix 31 (c * c) = Inr (c * c)"
    using assms by (intro dec_fix_exact [where m = m and k = k]) simp_all
  moreover have "ctx_round (c * c) = Inr (c * c)"
    using assms by (intro ctx_round_exact [where m = m and k = k]) simp_all
  ultimately show ?thesis by (simp add: dec_pow2_def)
qed

lemma dec_pow2_overflow:
  assumes "bpow 10 1000000 \<le> c * c"
  shows "dec_pow2 c = Inl Overflow"
proof -
  have "c * c \<le> \<bar>c * c\<bar>" by (rule abs_ge_self)
  with assms have "bpow 10 1000000 \<le> \<bar>c * c\<bar>" by (rule order_trans)
  then have "dec_fix 31 (c * c) = Inl Overflow" by (rule dec_fix_overflow [rotated]) simp
  then show ?thesis by (simp only: dec_pow2_def bind_err_Inl)
qed

section \<open>The operations of Vector\<close>

subsection \<open>Magnitude\<close>

lemma coord_Vector: "coordinates (Vector cs) = cs" "length_v (Vector cs) = length cs"
  by (simp_all add: Vector_def)

lemma sum_from_nonneg:
  "sum_from a xs = Inr s \<Longrightarrow> 0 \<le> a \<Longrightarrow> \<forall>x\<in>set xs. 0 \<le> x \<Longrightarrow> 0 \<le> s"
proof (induction xs arbitrary: a)
  case Nil
  then show ?case by simp
next
  case (Cons x xs)
  from Cons.prems(1) obtain a' where a': "dec_add a x = Inr a'" "sum_from a' xs = Inr s"
    by (auto simp: bind_err_eq_Inr)
  have "0 \<le> a + x" using Cons.prems(2,3) by simp
  with a'(1) have "0 \<le> a'" unfolding dec_add_def by (rule ctx_round_nonneg)
  with a'(2) show ?case using Cons.prems(3) by (intro Cons.IH [of a']) simp_all
qed

lemma squares_props:
  assumes "map_err dec_pow2 cs = Inr sq"
  shows "\<forall>t\<in>set sq. 0 \<le> t \<and> ctx_round t = Inr t"
proof
  fix t assume "t \<in> set sq"
  then obtain i where i: "i < length sq" "sq ! i = t" by (auto simp: in_set_conv_nth)
  with map_err_length [OF assms] have "i < length cs" by simp
  from map_err_nth [OF assms this] i have "dec_pow2 (cs ! i) = Inr t" by simp
  from dec_pow2_Inr(1,2) [OF this] show "0 \<le> t \<and> ctx_round t = Inr t" by simp
qed

lemma py_sum_squares_nonneg:
  assumes "map_err dec_pow2 cs = Inr sq" and "py_sum sq = Inr s"
  shows "0 \<le> s"
proof (rule sum_from_nonneg [of 0 sq s])
  show "sum_from 0 sq = Inr s" using assms(2) by (simp only: py_sum_def)
  show "(0::rat) \<le> 0" by simp
  show "\<forall>x\<in>set sq. 0 \<le> x" using squares_props [OF assms(1)] by simp
qed

lemma magnitude_Inr:
  assumes "magnitude v = Inr m"
  shows "\<exists>sq s. map_err dec_pow2 (coordinates v) = Inr sq \<and> py_sum sq = Inr s \<and> 0 \<le> s
           \<and> math_sqrt (double_round s) = Inr m"
proof -
  from assms obtain sq s where
    a: "map_err dec_pow2 (coordinates v) = Inr sq" "py_sum sq = Inr s"
       "math_sqrt (double_round s) = Inr m"
    by (auto simp: magnitude_def bind_err_eq_Inr)
  have "0 \<le> s"
    using a(1,2) by (rule py_sum_squares_nonneg)
  with a show ?thesis by blast
qed

lemma math_sqrt_double_round:
  assumes "0 \<le> s"
  shows "(double_round s = PInf \<and> math_sqrt (double_round s) = Inr PInf)
       \<or> (\<exists>d. 0 \<le> d \<and> double_round s = Fin d
              \<and> math_sqrt (double_round s) = Inr (Fin (sqrt_double d)))"
  using double_round_nonneg [OF assms] by auto

lemma magnitude_eq_Inl:
  assumes "magnitude v = Inl e"
  shows "e = Overflow"
proof (cases "map_err dec_pow2 (coordinates v)")
  case (Inl e')
  with assms have "e' = e" by (simp add: magnitude_def)
  moreover from map_err_eq_Inl [OF Inl] obtain c where "dec_pow2 c = Inl e'" by blast
  ultimately show ?thesis by (auto dest: dec_pow2_eq_Inl)
next
  case sq: (Inr sq)
  show ?thesis
  proof (cases "py_sum sq")
    case (Inl e')
    with assms sq have "e' = e" by (simp add: magnitude_def)
    with Inl show ?thesis unfolding py_sum_def by (auto dest: sum_from_eq_Inl)
  next
    case (Inr s)
    have "0 \<le> s"
      using sq Inr by (rule py_sum_squares_nonneg)
    from math_sqrt_double_round [OF this] assms sq Inr show ?thesis
      by (auto simp: magnitude_def)
  qed
qed

lemma magnitude_nonneg: "magnitude v = Inr m \<Longrightarrow> \<not> ext_less m 0"
proof -
  assume "magnitude v = Inr m"
  from magnitude_Inr [OF this] obtain s where s: "0 \<le> s" "math_sqrt (double_round s) = Inr m"
    by blast
  from math_sqrt_double_round [OF s(1)] s(2) consider "m = PInf"
    | d where "m = Fin (sqrt_double d)" by auto
  then show ?thesis
  proof cases
    case 1
    then show ?thesis by simp
  next
    case 2
    with sqrt_double_nonneg [of d] show ?thesis by (simp add: not_less)
  qed
qed

lemma map_err_zeros:
  "\<forall>c\<in>set cs. c = 0 \<Longrightarrow> map_err dec_pow2 cs = Inr (map (\<lambda>c. 0) cs)"
  by (induction cs) (simp_all add: dec_pow2_0)

lemma magnitude_zero_vector:
  assumes "\<forall>c\<in>set (coordinates v). c = 0"
  shows "magnitude v = Inr (Fin 0)"
proof -
  have "py_sum (map (\<lambda>c. 0) (coordinates v)) = Inr 0"
    unfolding py_sum_def by (rule sum_from_zeros) simp
  then show ?thesis
    by (simp add: magnitude_def map_err_zeros [OF assms] double_round_0 sqrt_double_0)
qed

lemma double_round_zero_lt:
  assumes "double_round s = Fin 0"
  shows "s < bpow 2 (- 1074)"
proof (rule ccontr)
  assume "\<not> s < bpow 2 (- 1074)"
  then have "bpow 2 (- 1022 - 53 + 1) \<le> s" by simp
  then have "0 < fl_round 2 53 (- 1022) s" by (intro fl_round_pos) simp_all
  with assms show False by (simp add: double_round_def Let_def split: if_splits)
qed

lemma pow10_300_le: "(10::rat) ^ (3 * 100) \<le> 2 ^ 1074"
proof -
  have "(10::rat) ^ (3 * 100) = (10 ^ 3) ^ 100" by (rule power_mult)
  also have "\<dots> \<le> ((2::rat) ^ 10) ^ 100" by (intro power_mono) simp_all
  also have "\<dots> = 2 ^ (10 * 100)" by (rule power_mult [symmetric])
  also have "\<dots> \<le> 2 ^ 1074" by (intro power_increasing) simp_all
  finally show ?thesis .
qed

lemma bpow_minus_nat: "0 < n \<Longrightarrow> bpow b (- int n) = 1 / of_int b ^ n"
  by (simp add: bpow_def)

lemma abs_lt_of_square_lt:
  fixes c :: rat
  assumes "c * c < (1 / 10 ^ n) * (1 / 10 ^ n)"
  shows "\<bar>c\<bar> < 1 / 10 ^ n"
proof (rule ccontr)
  assume "\<not> \<bar>c\<bar> < 1 / 10 ^ n"
  then have le: "1 / 10 ^ n \<le> \<bar>c\<bar>" by simp
  have "(0::rat) \<le> 1 / 10 ^ n" by simp
  with le have "(1 / 10 ^ n) * (1 / 10 ^ n) \<le> \<bar>c\<bar> * \<bar>c\<bar>" by (intro mult_mono) simp_all
  also have "\<bar>c\<bar> * \<bar>c\<bar> = c * c" by (rule abs_mult_self_eq)
  finally show False using assms by simp
qed

lemma magnitude_zero_small:
  assumes "magnitude v = Inr (Fin 0)" and c: "c \<in> set (coordinates v)"
  shows "\<bar>c\<bar> < 1 / 10 ^ 150"
proof -
  from assms(1) obtain sq s where
    a: "map_err dec_pow2 (coordinates v) = Inr sq" "py_sum sq = Inr s"
       "math_sqrt (double_round s) = Inr (Fin 0)"
    by (auto simp: magnitude_def bind_err_eq_Inr)
  have s0: "0 \<le> s"
    using a(1,2) by (rule py_sum_squares_nonneg)
  from math_sqrt_double_round [OF s0] a(3) obtain d where
    d: "0 \<le> d" "double_round s = Fin d" "sqrt_double d = 0" by auto
  from sqrt_double_eq_0_iff [OF d(2,1)] d(3) have "d = 0" by simp
  with d(2) have s1: "s < bpow 2 (- 1074)" by (intro double_round_zero_lt) simp
  have n300: "(3 * 100 :: nat) = 150 + 150" by simp
  have i1074: "(- 1074 :: int) = - int 1074" by simp
  have i300: "- int (150 + 150) \<ge> - 1000026" by simp
  have "bpow 2 (- 1074) = 1 / of_int 2 ^ 1074"
    unfolding i1074 by (rule bpow_minus_nat) simp
  also have "\<dots> = 1 / 2 ^ 1074" by (simp only: of_int_numeral)
  also have "\<dots> \<le> 1 / 10 ^ (3 * 100)"
  proof (rule divide_left_mono [OF pow10_300_le])
    show "(0::rat) \<le> 1" by simp
    show "(0::rat) < 2 ^ 1074 * 10 ^ (3 * 100)"
      by (intro mult_pos_pos zero_less_power) simp_all
  qed
  also have "(1::rat) / 10 ^ (3 * 100) = 1 / of_int 10 ^ (150 + 150)"
    by (simp only: n300 of_int_numeral)
  also have "\<dots> = bpow 10 (- int (150 + 150))"
    by (rule bpow_minus_nat [symmetric]) simp
  finally have s2: "bpow 2 (- 1074) \<le> bpow 10 (- int (150 + 150))" .
  from c obtain i where i: "i < length (coordinates v)" "coordinates v ! i = c"
    by (auto simp: in_set_conv_nth)
  from map_err_nth [OF a(1) i(1)] i(2) have t: "dec_pow2 c = Inr (sq ! i)" by simp
  have "sq ! i \<in> set sq" using i(1) map_err_length [OF a(1)] by simp
  moreover have "ctx_round 0 = Inr 0" by (rule ctx_round_0)
  ultimately have "sq ! i \<le> s"
    using sum_from_ge [of 0 sq s] a(2) squares_props [OF a(1)] by (simp add: py_sum_def)
  with s1 s2 have "sq ! i < bpow 10 (- int (150 + 150))" by linarith
  from dec_pow2_lt_bpow [OF t this i300] have "c * c < bpow 10 (- int (150 + 150))" .
  also have "bpow 10 (- int (150 + 150)) = 1 / of_int 10 ^ (150 + 150)"
    by (rule bpow_minus_nat) simp
  also have "\<dots> = (1 / 10 ^ 150) * (1 / 10 ^ 150 :: rat)"
    by (simp only: power_add of_int_numeral times_divide_times_eq mult_1)
  finally show ?thesis by (rule abs_lt_of_square_lt)
qed

subsection \<open>Normalization\<close>

lemma abs_lt_of_square_lt_gen:
  fixes c a :: rat
  assumes "c * c < a * a" and "0 \<le> a"
  shows "\<bar>c\<bar> < a"
proof (rule ccontr)
  assume "\<not> \<bar>c\<bar> < a"
  then have le: "a \<le> \<bar>c\<bar>" by simp
  with assms(2) have "a * a \<le> \<bar>c\<bar> * \<bar>c\<bar>" by (intro mult_mono) simp_all
  also have "\<bar>c\<bar> * \<bar>c\<bar> = c * c" by (rule abs_mult_self_eq)
  finally show False using assms(1) by simp
qed

lemma bpow_double: "bpow 10 (k + k) = bpow 10 k * bpow 10 k"
  by (rule bpow_add) simp

lemma sqrt_double_ge:
  assumes x: "bpow 2 (- 1074) \<le> x"
  shows "bpow 2 (- 1074) \<le> sqrt_double x"
proof -
  have xpos: "0 < x" using x bpow_pos [of 2 "- 1074"] by simp
  then have "\<exists>y. sqrt_double x = fl_round 2 53 (- 1022) y"
    by (auto simp: sqrt_double_def Let_def)
  then obtain y where y: "sqrt_double x = fl_round 2 53 (- 1022) y" ..
  have pos: "0 < sqrt_double x" using x by (rule sqrt_double_pos)
  with y have "fl_round 2 53 (- 1022) y \<noteq> 0" by simp
  then have "bpow 2 (- 1022 - 53 + 1) \<le> \<bar>fl_round 2 53 (- 1022) y\<bar>"
    by (intro fl_round_nonzero_ge) simp_all
  with pos y show ?thesis by simp
qed

lemma pow2_1074_le: "(2::rat) ^ (2 * 537) \<le> 10 ^ 537"
proof -
  have "(2::rat) ^ (2 * 537) = (2 ^ 2) ^ 537" by (rule power_mult)
  also have "\<dots> \<le> (10::rat) ^ 537" by (intro power_mono) simp_all
  finally show ?thesis .
qed

lemma bpow_nat: "bpow b (int n) = of_int b ^ n"
  by (simp add: bpow_def)

lemma inverse_double_le:
  assumes x: "bpow 2 (- 1074) \<le> x"
  shows "\<bar>1 / x\<bar> \<le> bpow 10 537"
proof -
  have bp: "0 < bpow 2 (- 1074)" by (rule bpow_pos) simp
  with x have xpos: "0 < x" by simp
  have i1074: "(- 1074 :: int) = - int (2 * 537)" by simp
  have i537: "(537 :: int) = int 537" by simp
  have "\<bar>1 / x\<bar> = 1 / x" using xpos by simp
  also have "\<dots> \<le> 1 / bpow 2 (- 1074)"
  proof (rule divide_left_mono [OF x])
    show "(0::rat) \<le> 1" by simp
    show "0 < x * bpow 2 (- 1074)" using xpos bp by (rule mult_pos_pos)
  qed
  also have "bpow 2 (- 1074) = 1 / of_int 2 ^ (2 * 537)"
    unfolding i1074 by (rule bpow_minus_nat) simp
  also have "1 / (1 / of_int 2 ^ (2 * 537)) = (2::rat) ^ (2 * 537)"
    by (simp only: of_int_numeral divide_divide_eq_right mult_1 div_by_1 one_add_one
        divide_inverse inverse_inverse_eq inverse_1 mult_1_left)
  also have "\<dots> \<le> 10 ^ 537" by (rule pow2_1074_le)
  also have "(10::rat) ^ 537 = of_int 10 ^ 537" by (simp only: of_int_numeral)
  also have "\<dots> = bpow 10 (int 537)" by (rule bpow_nat [symmetric])
  finally show ?thesis unfolding i537 .
qed

lemma magnitude_coordinates_bound:
  assumes "magnitude v = Inr m" and "c \<in> set (coordinates v)"
  shows "\<bar>c\<bar> < bpow 10 500000"
proof -
  from magnitude_Inr [OF assms(1)] obtain sq where
    sq: "map_err dec_pow2 (coordinates v) = Inr sq" by blast
  from assms(2) obtain i where i: "i < length (coordinates v)" "coordinates v ! i = c"
    by (auto simp: in_set_conv_nth)
  from map_err_nth [OF sq i(1)] i(2) have "dec_pow2 c = Inr (sq ! i)" by simp
  from dec_pow2_Inr(3) [OF this] have "\<bar>c * c\<bar> < bpow 10 1000000" .
  also have "bpow 10 1000000 = bpow 10 (500000 + 500000)" by simp
  also have "\<dots> = bpow 10 500000 * bpow 10 500000" by (rule bpow_double)
  finally have "c * c < bpow 10 500000 * bpow 10 500000" by (simp add: abs_mult)
  moreover have "0 \<le> bpow 10 500000" using bpow_pos [of 10 500000] by simp
  ultimately show ?thesis by (rule abs_lt_of_square_lt_gen)
qed

lemma scale_total:
  assumes c: "\<forall>c\<in>set (coordinates v). \<bar>c\<bar> < bpow 10 500000" and s: "\<bar>s\<bar> \<le> bpow 10 537"
  shows "\<exists>us. map_err (\<lambda>c. dec_mul c s) (coordinates v) = Inr us \<and> scale v s = Inr (Vector us)"
proof -
  have "\<forall>c\<in>set (coordinates v). \<exists>y. dec_mul c s = Inr y"
  proof
    fix c assume "c \<in> set (coordinates v)"
    with c have cl: "\<bar>c\<bar> \<le> bpow 10 500000" by auto
    have "\<bar>c * s\<bar> = \<bar>c\<bar> * \<bar>s\<bar>" by (rule abs_mult)
    also have "\<dots> \<le> bpow 10 500000 * bpow 10 537"
      using cl s by (intro mult_mono) simp_all
    also have "\<dots> = bpow 10 (500000 + 537)" by (rule bpow_add [symmetric]) simp
    finally have "\<bar>c * s\<bar> \<le> bpow 10 (500000 + 537)" .
    then have "\<exists>y. ctx_round (c * s) = Inr y \<and> \<bar>y\<bar> \<le> bpow 10 (500000 + 537)"
      by (rule ctx_round_ok) simp_all
    then show "\<exists>y. dec_mul c s = Inr y" unfolding dec_mul_def by blast
  qed
  from map_err_total [OF this] obtain us where
    "map_err (\<lambda>c. dec_mul c s) (coordinates v) = Inr us" ..
  then show ?thesis by (simp add: scale_def)
qed

lemma magnitude_value_cases:
  assumes "magnitude v = Inr m"
  shows "m = PInf \<or> m = Fin 0 \<or> (\<exists>x. m = Fin x \<and> bpow 2 (- 1074) \<le> x)"
proof -
  from magnitude_Inr [OF assms] obtain s where
    s: "0 \<le> s" "math_sqrt (double_round s) = Inr m" by blast
  from math_sqrt_double_round [OF s(1)] s(2) consider "m = PInf"
    | d where "0 \<le> d" "double_round s = Fin d" "m = Fin (sqrt_double d)" by auto
  then show ?thesis
  proof cases
    case 1
    then show ?thesis by simp
  next
    case 2
    from double_round_Fin_cases [OF 2(2)] 2(1) consider "d = 0" | "bpow 2 (- 1074) \<le> d"
      by auto
    then show ?thesis
    proof cases
      case 1
      with 2(3) show ?thesis by (simp add: sqrt_double_0)
    next
      case 2
      then have "bpow 2 (- 1074) \<le> sqrt_double d" by (rule sqrt_double_ge)
      with \<open>m = Fin (sqrt_double d)\<close> show ?thesis by simp
    qed
  qed
qed

lemma dec_div_one_ok:
  assumes "m \<noteq> Fin 0" and "m = PInf \<or> m = Fin 0 \<or> (\<exists>x. m = Fin x \<and> bpow 2 (- 1074) \<le> x)"
  shows "\<exists>s. dec_div 1 m = Inr s \<and> \<bar>s\<bar> \<le> bpow 10 537"
proof -
  have bp: "0 < bpow 2 (- 1074)" by (rule bpow_pos) simp
  have b10: "0 < bpow 10 537" by (rule bpow_pos) simp
  from assms consider "m = PInf" | x where "m = Fin x" "bpow 2 (- 1074) \<le> x" by auto
  then show ?thesis
  proof cases
    case 1
    with b10 show ?thesis by simp
  next
    case 2
    from 2(2) have "\<bar>1 / x\<bar> \<le> bpow 10 537" by (rule inverse_double_le)
    then have "\<exists>y. ctx_round (1 / x) = Inr y \<and> \<bar>y\<bar> \<le> bpow 10 537"
      by (rule ctx_round_ok) simp_all
    moreover have "x \<noteq> 0" using 2(2) bp by simp
    ultimately show ?thesis using 2(1) by simp
  qed
qed

lemma normalized_of_magnitude_error:
  assumes "magnitude v = Inl e"
  shows "e = Overflow" and "normalized v = Inl e"
proof -
  show e: "e = Overflow" using assms by (rule magnitude_eq_Inl)
  with assms show "normalized v = Inl e" by (simp add: normalized_def)
qed

lemma normalized_of_magnitude_zero:
  "magnitude v = Inr (Fin 0) \<Longrightarrow> normalized v = Inl CannotNormalizeZeroVectorError"
  by (simp add: normalized_def)

lemma normalized_of_magnitude:
  assumes "magnitude v = Inr m" and "m \<noteq> Fin 0"
  shows "\<exists>s us. dec_div 1 m = Inr s \<and> map_err (\<lambda>c. dec_mul c s) (coordinates v) = Inr us
           \<and> scale v s = Inr (Vector us) \<and> normalized v = Inr (Vector us)"
proof -
  from dec_div_one_ok [OF assms(2) magnitude_value_cases [OF assms(1)]] obtain s where
    s: "dec_div 1 m = Inr s" "\<bar>s\<bar> \<le> bpow 10 537" by blast
  have "\<forall>c\<in>set (coordinates v). \<bar>c\<bar> < bpow 10 500000"
    using magnitude_coordinates_bound [OF assms(1)] by blast
  from scale_total [OF this s(2)] obtain us where
    us: "map_err (\<lambda>c. dec_mul c s) (coordinates v) = Inr us" "scale v s = Inr (Vector us)"
    by blast
  with assms(1) s(1) have "normalized v = Inr (Vector us)" by (simp add: normalized_def)
  with s(1) us show ?thesis by blast
qed

lemma normalized_errors:
  assumes "normalized v = Inl e"
  shows "e = CannotNormalizeZeroVectorError \<and> magnitude v = Inr (Fin 0)
       \<or> e = Overflow \<and> magnitude v = Inl Overflow"
proof (cases "magnitude v")
  case (Inl e')
  from normalized_of_magnitude_error [OF this] assms Inl show ?thesis by simp
next
  case (Inr m)
  show ?thesis
  proof (cases "m = Fin 0")
    case True
    with Inr normalized_of_magnitude_zero [of v] assms show ?thesis by simp
  next
    case False
    from normalized_of_magnitude [OF Inr False] assms show ?thesis by auto
  qed
qed

lemma normalized_Vector:
  assumes "normalized (Vector xs) = Inr u"
  shows "\<exists>us. u = Vector us \<and> length us = length xs"
proof (cases "magnitude (Vector xs)")
  case (Inl e)
  from normalized_of_magnitude_error(2) [OF this] assms show ?thesis by simp
next
  case (Inr m)
  show ?thesis
  proof (cases "m = Fin 0")
    case True
    with Inr normalized_of_magnitude_zero [of "Vector xs"] assms show ?thesis by simp
  next
    case False
    from normalized_of_magnitude [OF Inr False] obtain s us where
      "map_err (\<lambda>c. dec_mul c s) (coordinates (Vector xs)) = Inr us"
      "normalized (Vector xs) = Inr (Vector us)" by blast
    with assms map_err_length [of "\<lambda>c. dec_mul c s" "coordinates (Vector xs)" us]
    show ?thesis by (auto simp: coord_Vector)
  qed
qed

subsection \<open>Overflow\<close>






subsection \<open>Errors of the operations\<close>

lemma scale_errors: "scale v s = Inl e \<Longrightarrow> e = Overflow"
  by (auto simp: scale_def bind_err_eq_Inl dest!: map_err_eq_Inl dec_mul_eq_Inl)

lemma py_sum_errors: "py_sum xs = Inl e \<Longrightarrow> e = Overflow"
  unfolding py_sum_def by (rule sum_from_eq_Inl)

lemma dot_errors: "dot v w = Inl e \<Longrightarrow> e = size_mismatch \<or> e = Overflow"
  by (auto simp: dot_def bind_err_eq_Inl split: if_splits
      dest!: map_err_eq_Inl dec_mul_eq_Inl py_sum_errors)

lemma dot_mismatch:
  "length xs \<noteq> length ys \<Longrightarrow> dot (Vector xs) (Vector ys) = Inl size_mismatch"
  by (simp add: dot_def coord_Vector)

lemma dot_rounded: "dot v w = Inr d \<Longrightarrow> ctx_round d = Inr d"
  by (auto simp: dot_def bind_err_eq_Inr split: if_splits dest: py_sum_rounded)

lemma dunder_sub_vector_errors: "dunder_sub v (OVector w) = Inl e \<Longrightarrow> e = Overflow"
  by (auto simp: bind_err_eq_Inl dest!: map_err_eq_Inl dec_sub_eq_Inl)

lemma dunder_add_vector_errors: "dunder_add v (OVector w) = Inl e \<Longrightarrow> e = Overflow"
  by (auto simp: bind_err_eq_Inl dest!: map_err_eq_Inl dec_add_eq_Inl)

subsection \<open>Some values\<close>

lemma dec_pow2_of_int: "\<bar>m * m\<bar> < 10 ^ 28 \<Longrightarrow> dec_pow2 (of_int m) = Inr (of_int (m * m))"
  using dec_pow2_exact [of "of_int m" "m * m" 0] by (simp add: bpow_def)

lemma magnitude_3_4: "magnitude (Vector [3, 4]) = Inr (Fin 5)"
proof -
  have "dec_pow2 3 = Inr 9" "dec_pow2 4 = Inr 16"
    using dec_pow2_of_int [of 3] dec_pow2_of_int [of 4] by simp_all
  then show ?thesis
    by (simp add: magnitude_def coord_Vector py_sum_def dec_add_def
        ctx_round_numeral double_round_numeral sqrt_double_25)
qed

lemma ctx_round_fifths:
  "ctx_round (1 / 5) = Inr (1 / 5)" "ctx_round (3 / 5) = Inr (3 / 5)"
  "ctx_round (4 / 5) = Inr (4 / 5)"
proof -
  show "ctx_round (1 / 5) = Inr (1 / 5)"
    by (rule ctx_round_exact [where m = 2 and k = "- 1"]) (simp_all add: bpow_def)
  show "ctx_round (3 / 5) = Inr (3 / 5)"
    by (rule ctx_round_exact [where m = 6 and k = "- 1"]) (simp_all add: bpow_def)
  show "ctx_round (4 / 5) = Inr (4 / 5)"
    by (rule ctx_round_exact [where m = 8 and k = "- 1"]) (simp_all add: bpow_def)
qed

lemma normalized_3_4: "normalized (Vector [3, 4]) = Inr (Vector [3 / 5, 4 / 5])"
  by (simp add: normalized_def magnitude_3_4 ctx_round_fifths scale_def dec_mul_def coord_Vector)

lemma magnitude_0_0: "magnitude (Vector [0, 0]) = Inr (Fin 0)"
  by (rule magnitude_zero_vector) (simp add: coord_Vector)

section \<open>The claims\<close>

subsection \<open>Addition and subtraction\<close>

text \<open>
  What \<^verbatim>\<open>+\<close> and \<^verbatim>\<open>-\<close> do for equal dimensions, for a scalar and for another operand.
\<close>

lemma add_equal_dimension:
  assumes "length xs = length ys"
    and "dunder_add (Vector xs) (OVector (Vector ys)) = Inr r"
  shows "\<exists>rs. r = Vector rs \<and> length rs = length xs
           \<and> (\<forall>i<length xs. dec_add (xs ! i) (ys ! i) = Inr (rs ! i))"
proof -
  from assms(2) obtain rs where
    rs: "map_err (\<lambda>(a, b). dec_add a b) (zip xs ys) = Inr rs" "r = Vector rs"
    by (auto simp: coord_Vector bind_err_eq_Inr)
  from map_err_length [OF rs(1)] assms(1) have l: "length rs = length xs" by simp
  have "dec_add (xs ! i) (ys ! i) = Inr (rs ! i)" if "i < length xs" for i
    using map_err_nth [OF rs(1), of i] that assms(1) by simp
  with rs(2) l show ?thesis by blast
qed

lemma sub_equal_dimension:
  assumes "length xs = length ys"
    and "dunder_sub (Vector xs) (OVector (Vector ys)) = Inr r"
  shows "\<exists>rs. r = Vector rs \<and> length rs = length xs
           \<and> (\<forall>i<length xs. dec_sub (xs ! i) (ys ! i) = Inr (rs ! i))"
proof -
  from assms(2) obtain rs where
    rs: "map_err (\<lambda>(a, b). dec_sub a b) (zip xs ys) = Inr rs" "r = Vector rs"
    by (auto simp: coord_Vector bind_err_eq_Inr)
  from map_err_length [OF rs(1)] assms(1) have l: "length rs = length xs" by simp
  have "dec_sub (xs ! i) (ys ! i) = Inr (rs ! i)" if "i < length xs" for i
    using map_err_nth [OF rs(1), of i] that assms(1) by simp
  with rs(2) l show ?thesis by blast
qed

lemma add_other_operand:
  "dunder_add v OOther = Inl (TypeError ''Addition argument must be a vector or a scalar.'')
   \<and> dunder_sub v OOther = Inl (TypeError ''Subtraction argument must be a vector or a scalar.'')"
  by simp

text \<open>
  Claim C1 says that \<^verbatim>\<open>+\<close> and \<^verbatim>\<open>-\<close> on two Vectors of unequal dimension fail with a
  dimension error. \<^verbatim>\<open>__add__\<close> and \<^verbatim>\<open>__sub__\<close> do not compare the lengths (as \<^verbatim>\<open>dot\<close>,
  \<^verbatim>\<open>angle_with\<close>, \<^verbatim>\<open>is_parallel_with\<close> and \<^verbatim>\<open>is_orthogonal_with\<close> do): \<^verbatim>\<open>zip\<close> stops at
  the shorter tuple, so a Vector of dimension 2 plus (minus) one of dimension 3 is
  a Vector of dimension 2 and nothing is raised.
\<close>
theorem add_sub_unequal_dimension:
  "dunder_add (Vector [1, 2]) (OVector (Vector [1, 2, 3])) = Inr (Vector [2, 4])
   \<and> dunder_sub (Vector [1, 2]) (OVector (Vector [1, 2, 3])) = Inr (Vector [0, 0])"
  by (simp add: coord_Vector dec_add_def dec_sub_def ctx_round_numeral ctx_round_0)

subsection \<open>Normalization\<close>




subsection \<open>Projections on a basis of magnitude zero\<close>

text \<open>
  Claim C6: for a basis of magnitude zero, \<^verbatim>\<open>component_parallel_to\<close> fails with
  \<^verbatim>\<open>NoUniqueParallelComponentError\<close> and \<^verbatim>\<open>component_orthogonal_to\<close> with
  \<^verbatim>\<open>NoUniqueOrthogonalComponentError\<close>; each of the two errors arises exactly when the
  normalization of the basis fails with \<^verbatim>\<open>CannotNormalizeZeroVectorError\<close>, and that
  error itself never leaves either operation, whatever the arguments are.
\<close>
theorem zero_basis_projection_errors:
  "(magnitude b = Inr (Fin 0) \<longrightarrow>
      component_parallel_to v b = Inl NoUniqueParallelComponentError
      \<and> component_orthogonal_to v b = Inl NoUniqueOrthogonalComponentError)
   \<and> (component_parallel_to v b = Inl NoUniqueParallelComponentError
        \<longleftrightarrow> normalized b = Inl CannotNormalizeZeroVectorError)
   \<and> (component_orthogonal_to v b = Inl NoUniqueOrthogonalComponentError
        \<longleftrightarrow> normalized b = Inl CannotNormalizeZeroVectorError)
   \<and> component_parallel_to v b \<noteq> Inl CannotNormalizeZeroVectorError
   \<and> component_orthogonal_to v b \<noteq> Inl CannotNormalizeZeroVectorError"
proof -
  have par: "component_parallel_to v b = Inl e \<Longrightarrow>
      (e = NoUniqueParallelComponentError \<and> normalized b = Inl CannotNormalizeZeroVectorError)
      \<or> ((e = size_mismatch \<or> e = Overflow)
          \<and> normalized b \<noteq> Inl CannotNormalizeZeroVectorError)" for e
    by (auto simp: component_parallel_to_def bind_err_eq_Inl
        split: sum.splits if_splits dest: normalized_errors dot_errors scale_errors)
  have par_zero: "normalized b = Inl CannotNormalizeZeroVectorError \<Longrightarrow>
      component_parallel_to v b = Inl NoUniqueParallelComponentError"
    by (simp add: component_parallel_to_def)
  have orth: "component_orthogonal_to v b = Inl e \<Longrightarrow>
      (e = NoUniqueOrthogonalComponentError \<and> normalized b = Inl CannotNormalizeZeroVectorError)
      \<or> ((e = size_mismatch \<or> e = Overflow)
          \<and> normalized b \<noteq> Inl CannotNormalizeZeroVectorError)" for e
  proof (cases "component_parallel_to v b")
    case (Inl e')
    assume "component_orthogonal_to v b = Inl e"
    with Inl par [OF Inl] show ?thesis
      by (auto simp: component_orthogonal_to_def split: if_splits)
  next
    case (Inr p)
    assume "component_orthogonal_to v b = Inl e"
    with Inr have "dunder_sub v (OVector p) = Inl e" by (simp add: component_orthogonal_to_def)
    then have "e = Overflow" by (rule dunder_sub_vector_errors)
    moreover have "normalized b \<noteq> Inl CannotNormalizeZeroVectorError"
      using par_zero Inr by auto
    ultimately show ?thesis by simp
  qed
  have orth_zero: "normalized b = Inl CannotNormalizeZeroVectorError \<Longrightarrow>
      component_orthogonal_to v b = Inl NoUniqueOrthogonalComponentError"
    by (simp add: component_orthogonal_to_def par_zero)
  have nz: "magnitude b = Inr (Fin 0) \<Longrightarrow> normalized b = Inl CannotNormalizeZeroVectorError"
    by (rule normalized_of_magnitude_zero)
  show ?thesis
    using par orth par_zero orth_zero nz by (intro conjI impI iffI) fastforce+
qed

theorem zero_basis_projection_errors_witness:
  "magnitude (Vector [0, 0]) = Inr (Fin 0)
   \<and> component_parallel_to (Vector [1, 2]) (Vector [0, 0]) = Inl NoUniqueParallelComponentError
   \<and> component_orthogonal_to (Vector [1, 2]) (Vector [0, 0])
        = Inl NoUniqueOrthogonalComponentError"
  using zero_basis_projection_errors [of "Vector [0, 0]" "Vector [1, 2]"] magnitude_0_0
  by blast

subsection \<open>Orthogonality\<close>

text \<open>
  Claim C9: for two Vectors of equal dimension and any tolerance \<open>t\<close> (the default is
  \<open>DEFAULT_TOLERANCE\<close>), \<^verbatim>\<open>is_orthogonal_with\<close> returns true exactly when their dot product
  has a value whose absolute value is strictly below \<open>t\<close>: it returns \<open>\<bar>d\<bar> < t\<close> when the
  dot product returns \<open>d\<close> and raises what the dot product raises. For unequal dimensions
  it fails with the \<^verbatim>\<open>TypeError\<close> "Vectors must have equal size.".
\<close>
theorem is_orthogonal_with_spec:
  "(length xs \<noteq> length ys \<longrightarrow>
      is_orthogonal_with (Vector xs) (Vector ys) t = Inl size_mismatch)
   \<and> (length xs = length ys \<longrightarrow>
        is_orthogonal_with (Vector xs) (Vector ys) t
          = (case dot (Vector xs) (Vector ys) of Inl e \<Rightarrow> Inl e | Inr d \<Rightarrow> Inr (\<bar>d\<bar> < t))
        \<and> (is_orthogonal_with (Vector xs) (Vector ys) t = Inr True
             \<longleftrightarrow> (\<exists>d. dot (Vector xs) (Vector ys) = Inr d \<and> \<bar>d\<bar> < t)))"
proof (intro conjI impI)
  assume "length xs \<noteq> length ys"
  then show "is_orthogonal_with (Vector xs) (Vector ys) t = Inl size_mismatch"
    by (simp add: is_orthogonal_with_def coord_Vector)
next
  assume eq: "length xs = length ys"
  show c: "is_orthogonal_with (Vector xs) (Vector ys) t
      = (case dot (Vector xs) (Vector ys) of Inl e \<Rightarrow> Inl e | Inr d \<Rightarrow> Inr (\<bar>d\<bar> < t))"
  proof (cases "dot (Vector xs) (Vector ys)")
    case (Inl e)
    with eq show ?thesis by (simp add: is_orthogonal_with_def coord_Vector)
  next
    case (Inr d)
    from dot_rounded [OF this] have "dec_abs d = Inr \<bar>d\<bar>" by (rule dec_abs_rounded)
    with Inr eq show ?thesis by (simp add: is_orthogonal_with_def coord_Vector)
  qed
  show "is_orthogonal_with (Vector xs) (Vector ys) t = Inr True
      \<longleftrightarrow> (\<exists>d. dot (Vector xs) (Vector ys) = Inr d \<and> \<bar>d\<bar> < t)"
    unfolding c by (cases "dot (Vector xs) (Vector ys)") simp_all
qed

theorem is_orthogonal_with_spec_witness:
  "length [1, 0 :: rat] = length [0, 1 :: rat]
   \<and> dot (Vector [1, 0]) (Vector [0, 1]) = Inr 0
   \<and> is_orthogonal_with (Vector [1, 0]) (Vector [0, 1]) DEFAULT_TOLERANCE = Inr True
   \<and> length [1 :: rat] \<noteq> length [1, 2 :: rat]
   \<and> is_orthogonal_with (Vector [1]) (Vector [1, 2]) DEFAULT_TOLERANCE = Inl size_mismatch"
proof -
  have d: "dot (Vector [1, 0]) (Vector [0, 1]) = Inr 0"
    by (simp add: dot_def coord_Vector py_sum_def dec_mul_def dec_add_def ctx_round_0)
  moreover have "\<bar>0\<bar> < DEFAULT_TOLERANCE" by (simp add: DEFAULT_TOLERANCE_def)
  ultimately show ?thesis
    using is_orthogonal_with_spec [of "[1, 0]" "[0, 1]" DEFAULT_TOLERANCE]
      is_orthogonal_with_spec [of "[1]" "[1, 2]" DEFAULT_TOLERANCE]
    by simp
qed

subsection \<open>The cross product\<close>





subsection \<open>Addition followed by subtraction\<close>

lemma dunder_eq_Vector: "dunder_eq (Vector xs) (Vector ys) \<longleftrightarrow> xs = ys"
proof -
  have "dunder_eq (Vector xs) (Vector ys)
      \<longleftrightarrow> length xs = length ys \<and> (\<forall>i<length xs. xs ! i = ys ! i)"
    by (auto simp: dunder_eq_def coord_Vector eq_loop_iff)
  also have "\<dots> \<longleftrightarrow> xs = ys" by (rule list_eq_iff_nth_eq [symmetric])
  finally show ?thesis .
qed

lemma add_then_sub:
  "length xs = length ys \<Longrightarrow>
   \<forall>(a, b)\<in>set (zip xs ys). ctx_round (a + b) = Inr (a + b) \<and> ctx_round a = Inr a \<Longrightarrow>
   map_err (\<lambda>(a, b). dec_add a b) (zip xs ys) = Inr (map (\<lambda>(a, b). a + b) (zip xs ys))
   \<and> map_err (\<lambda>(s, b). dec_sub s b) (zip (map (\<lambda>(a, b). a + b) (zip xs ys)) ys) = Inr xs"
  by (induction xs ys rule: list_induct2) (simp_all add: dec_add_def dec_sub_def)

lemma dec_add_1_1e28:
  "dec_add 1 10000000000000000000000000000 = Inr 10000000000000000000000000000"
  unfolding dec_add_def ctx_round_def dec_fix_def by code_simp

text \<open>
  Claim C8 says that \<open>(a + b) - b == a\<close> for all Vectors of equal dimension. Each Decimal
  operation rounds to 28 significant digits: \<open>1 + 10\<^sup>2\<^sup>8\<close> has 29 digits and is rounded to
  \<open>10\<^sup>2\<^sup>8\<close>, so for \<open>a = [1]\<close> and \<open>b = [10\<^sup>2\<^sup>8]\<close> the sum is \<open>[10\<^sup>2\<^sup>8]\<close>, the difference is
  \<open>[0]\<close>, and \<open>[0] == [1]\<close> is false.
\<close>
theorem add_sub_inverse_counterexample:
  "dunder_add (Vector [1]) (OVector (Vector [10000000000000000000000000000]))
     = Inr (Vector [10000000000000000000000000000])
   \<and> dunder_sub (Vector [10000000000000000000000000000])
        (OVector (Vector [10000000000000000000000000000])) = Inr (Vector [0])
   \<and> \<not> dunder_eq (Vector [0]) (Vector [1])"
  by (simp add: coord_Vector dec_add_1_1e28 dec_sub_def ctx_round_0 dunder_eq_Vector)

text \<open>
  Claim C8, amended: for two Vectors \<open>a\<close> and \<open>b\<close> of equal dimension, \<open>a + b\<close> and
  \<open>(a + b) - b\<close> are defined and \<open>(a + b) - b == a\<close> holds (with the exact equality of
  \<^verbatim>\<open>__eq__\<close>) whenever every coordinate \<open>a\<^sub>i\<close> of \<open>a\<close> and every exact coordinate sum
  \<open>a\<^sub>i + b\<^sub>i\<close> is a Decimal of the context: it has at most 28 significant digits and is
  in the exponent range, so that the context returns it unchanged.
\<close>
theorem add_sub_inverse_exact:
  "length xs = length ys \<Longrightarrow>
   \<forall>(a, b)\<in>set (zip xs ys). ctx_round (a + b) = Inr (a + b) \<and> ctx_round a = Inr a \<Longrightarrow>
   \<exists>s r. dunder_add (Vector xs) (OVector (Vector ys)) = Inr s
        \<and> dunder_sub s (OVector (Vector ys)) = Inr r
        \<and> dunder_eq r (Vector xs)"
  using add_then_sub [of xs ys] by (simp add: coord_Vector dunder_eq_Vector)

theorem add_sub_inverse_exact_witness:
  "length [1, 2 :: rat] = length [3, 4 :: rat]
   \<and> ctx_round (1 + 3) = Inr (1 + 3) \<and> ctx_round 1 = Inr 1
   \<and> ctx_round (2 + 4) = Inr (2 + 4) \<and> ctx_round 2 = Inr 2
   \<and> (\<exists>s r. dunder_add (Vector [1, 2]) (OVector (Vector [3, 4])) = Inr s
        \<and> dunder_sub s (OVector (Vector [3, 4])) = Inr r
        \<and> dunder_eq r (Vector [1, 2]))"
proof -
  have h: "\<forall>(a, b)\<in>set (zip [1, 2] [3, 4]).
      ctx_round (a + b) = Inr (a + b) \<and> ctx_round a = Inr a"
    by (simp add: ctx_round_numeral ctx_round_1)
  from add_sub_inverse_exact [of "[1, 2]" "[3, 4]", OF _ h] h show ?thesis
    by (simp add: ctx_round_numeral ctx_round_1)
qed

end
